theory Spec2Isabelle
  imports Complex_Main
begin

section \<open>Alt-text generator: index builder and enrichment pipeline (src/index.js)\<close>

text \<open>
  The script talks to two remote services, reads and writes one cache file and hands its
  output to a CSV writer. All of them are explicit here:
  \<^item> the source API and the generation API are functions of the number of requests posted so
    far and of the request, so that a service may answer the same request differently over
    time (rate-limited first, successful later);
  \<^item> the cache file, the global \<open>shopifyFiles\<close>, and everything the script does to the
    outside (requests, \<open>setTimeout\<close> waits, \<open>console.warn\<close>, file and CSV writes) live in
    a \<open>world\<close> record that every function takes and returns;
  \<^item> \<open>while (true)\<close> and \<open>while (hasNextPage)\<close> may run forever: these loops are
    \<open>partial_function (option)\<close>, with \<open>None\<close> for a call that never returns;
  \<^item> a thrown exception is \<open>Inl\<close> of an \<open>error\<close>.

  JavaScript objects used as dictionaries (\<open>shopifyFiles\<close>, a CSV row) are finite maps from
  the names of their own properties to the values, with the properties they inherit from
  \<open>Object.prototype\<close> written out where the script reads or assigns a computed name; the
  order of the keys is not represented. A string is the list of the bytes of its UTF-8
  form (strings with unpaired surrogates are left out). Writing the cache file and
  \<open>csvWriter.writeRecords\<close> are taken to succeed, and \<open>console.log\<close> is left out.
\<close>

subsection \<open>Strings\<close>

text \<open>\<open>s.split(c)\<close> for a one-character separator: never empty, \<open>"".split(c)\<close> is \<open>[""]\<close>.\<close>

fun split_on :: "char \<Rightarrow> string \<Rightarrow> string list" where
  "split_on c [] = [[]]"
| "split_on c (x # xs) =
     (if x = c then [] # split_on c xs
      else (case split_on c xs of
              [] \<Rightarrow> [[x]]
            | y # ys \<Rightarrow> (x # y) # ys))"

text \<open>\<open>url.split("/").pop().split("?")[0]\<close>\<close>

definition fileName_of :: "string \<Rightarrow> string" where
  "fileName_of url = hd (split_on (CHR ''?'') (last (split_on (CHR ''/'') url)))"

definition ends_with :: "string \<Rightarrow> string \<Rightarrow> bool" where
  "ends_with suf s \<longleftrightarrow> length suf \<le> length s \<and> drop (length s - length suf) s = suf"

text \<open>
  \<open>String.prototype.trim\<close> removes white space and line terminators from both ends. These
  are the code points U+0009 to U+000D, U+0020, U+00A0, U+1680, U+2000 to U+200A, U+2028,
  U+2029, U+202F, U+205F, U+3000 and U+FEFF, here in their UTF-8 form.
\<close>

definition white_space :: "string list" where
  "white_space =
     [[CHR 0x09], [CHR 0x0A], [CHR 0x0B], [CHR 0x0C], [CHR 0x0D], [CHR 0x20],
      [CHR 0xC2, CHR 0xA0],
      [CHR 0xE1, CHR 0x9A, CHR 0x80],
      [CHR 0xE2, CHR 0x80, CHR 0x80], [CHR 0xE2, CHR 0x80, CHR 0x81],
      [CHR 0xE2, CHR 0x80, CHR 0x82], [CHR 0xE2, CHR 0x80, CHR 0x83],
      [CHR 0xE2, CHR 0x80, CHR 0x84], [CHR 0xE2, CHR 0x80, CHR 0x85],
      [CHR 0xE2, CHR 0x80, CHR 0x86], [CHR 0xE2, CHR 0x80, CHR 0x87],
      [CHR 0xE2, CHR 0x80, CHR 0x88], [CHR 0xE2, CHR 0x80, CHR 0x89],
      [CHR 0xE2, CHR 0x80, CHR 0x8A],
      [CHR 0xE2, CHR 0x80, CHR 0xA8], [CHR 0xE2, CHR 0x80, CHR 0xA9],
      [CHR 0xE2, CHR 0x80, CHR 0xAF],
      [CHR 0xE2, CHR 0x81, CHR 0x9F],
      [CHR 0xE3, CHR 0x80, CHR 0x80],
      [CHR 0xEF, CHR 0xBB, CHR 0xBF]]"

definition starts_with :: "string \<Rightarrow> string \<Rightarrow> bool" where
  "starts_with pre s \<longleftrightarrow> take (length pre) s = pre"

text \<open>
  White space is taken off the front, and then off the end, for as long as there is some;
  each round takes at least one byte, so as many rounds as the string has bytes are
  enough. The bytes at the end of a UTF-8 string that spell a code point are that code
  point.
\<close>

primrec drop_spaces :: "nat \<Rightarrow> string \<Rightarrow> string" where
  "drop_spaces 0 s = s"
| "drop_spaces (Suc n) s =
     (case find (\<lambda>sp. starts_with sp s) white_space of
        None \<Rightarrow> s
      | Some sp \<Rightarrow> drop_spaces n (drop (length sp) s))"

primrec chop_spaces :: "nat \<Rightarrow> string \<Rightarrow> string" where
  "chop_spaces 0 s = s"
| "chop_spaces (Suc n) s =
     (case find (\<lambda>sp. ends_with sp s) white_space of
        None \<Rightarrow> s
      | Some sp \<Rightarrow> chop_spaces n (take (length s - length sp) s))"

definition trim :: "string \<Rightarrow> string" where
  "trim s = (let front = drop_spaces (length s) s in chop_spaces (length front) front)"

text \<open>\<open>fileName.replace(/(_product|_collection)$/, "")\<close>: at most one suffix is removed.\<close>

definition strip_suffix :: "string \<Rightarrow> string" where
  "strip_suffix s =
     (if ends_with ''_product'' s then take (length s - length ''_product'') s
      else if ends_with ''_collection'' s then take (length s - length ''_collection'') s
      else s)"

subsection \<open>Data\<close>

text \<open>
  What reading a property of a plain object can give where the script stores strings: a
  string, or the value \<open>Object.prototype\<close> holds under the name (a function, or the
  prototype itself for \<open>__proto__\<close>), which is not a string and is truthy.
\<close>

datatype cell = Text string | Inherited string

text \<open>The names of the properties of \<open>Object.prototype\<close>.\<close>

definition object_prototype :: "string list" where
  "object_prototype =
     [''constructor'', ''__defineGetter__'', ''__defineSetter__'', ''hasOwnProperty'',
      ''__lookupGetter__'', ''__lookupSetter__'', ''isPrototypeOf'', ''propertyIsEnumerable'',
      ''toString'', ''valueOf'', ''__proto__'', ''toLocaleString'']"

text \<open>The own properties of \<open>shopifyFiles\<close>, as \<open>{}\<close> and \<open>JSON.parse\<close> make the object.\<close>

type_synonym store = "string \<rightharpoonup> string"

text \<open>\<open>files[name]\<close>: the own property, else the inherited one, else \<open>undefined\<close>.\<close>

definition lookup :: "store \<Rightarrow> string \<Rightarrow> cell option" where
  "lookup files name =
     (case files name of
        Some url \<Rightarrow> Some (Text url)
      | None \<Rightarrow> if name \<in> set object_prototype then Some (Inherited name) else None)"

text \<open>
  \<open>files[name] = url\<close>: an own property is set or made, except that without an own
  \<open>__proto__\<close> the assignment of a string goes to the setter of \<open>Object.prototype\<close>, which
  ignores it. (\<open>JSON.parse\<close> makes an own \<open>__proto__\<close> of such a key in the cache file.)
\<close>

definition assign :: "store \<Rightarrow> string \<Rightarrow> string \<Rightarrow> store" where
  "assign files name url =
     (if name = ''__proto__'' \<and> files name = None then files else files(name \<mapsto> url))"

text \<open>
  A row as the CSV parser hands it over has strings only; the object the engine works on
  is the same one, in which \<open>Updated Link\<close> may come to hold any value that a lookup gives.
\<close>

type_synonym row = "string \<rightharpoonup> string"

type_synonym row_object = "string \<rightharpoonup> cell"

definition object_of :: "row \<Rightarrow> row_object" where
  "object_of row = map_option Text \<circ> row"

datatype category = Files | Collections | Products

text \<open>A GraphQL query of the builder: the collection asked for and the \<open>after:\<close> argument.\<close>

datatype query = Query category "string option"

text \<open>
  An edge of \<open>files\<close> or \<open>collections\<close>: its cursor and \<open>node.image?.url\<close>;
  an edge of \<open>products\<close>: its cursor and the \<open>url\<close> of each of \<open>node.images.edges\<close>.
  Every edge is taken to have a node, and every product node its \<open>images.edges\<close>, as the
  queries ask for them.
\<close>

record image_edge =
  cursor :: string
  image_url :: "string option"

record product_edge =
  p_cursor :: string
  p_image_urls :: "string option list"

record image_page =
  edges :: "image_edge list"
  hasNextPage :: bool

record product_page =
  p_edges :: "product_edge list"
  p_hasNextPage :: bool

text \<open>The body of a successful reply: the root field it carries, if any.\<close>

datatype response =
    FilesData image_page
  | CollectionsData image_page
  | ProductsData product_page
  | NoData

text \<open>What \<open>axios.post\<close> does: resolve, or reject with \<open>error.response?.status\<close>.\<close>

datatype shopify_reply = Ok response | Rejected "nat option"

type_synonym shopify_api = "nat \<Rightarrow> query \<Rightarrow> shopify_reply"

text \<open>
  The generation API resolves with \<open>response.data.choices\<close> (\<open>None\<close> when the body has no
  such array), each choice reduced to \<open>message?.content\<close>; or it rejects with
  \<open>error.response?.data?.error?.code\<close>.
\<close>

datatype openai_reply = Completed "string option list option" | Failed "string option"

text \<open>
  The generation API is asked with what \<open>generateAltText\<close> was called with; a value that
  is not a string leaves no \<open>url\<close> in the posted body.
\<close>

type_synonym openai_api = "nat \<Rightarrow> cell \<Rightarrow> openai_reply"

datatype cache_file = Absent | Unparsable | Stored store

datatype error = RequestError "nat option" | SyntaxError

datatype warning =
    MissingUrl category
  | NoFileName nat
  | NoMatch nat string

datatype event =
    ShopifyPost query
  | OpenAiPost cell
  | Sleep nat
  | Warn warning
  | WriteCache store
  | WriteRecords "row_object list"

record world =
  shopifyFiles :: store
  cacheFile :: cache_file
  shopifyPosts :: nat
  openAiPosts :: nat
  trace :: "event list"

definition emit :: "event \<Rightarrow> world \<Rightarrow> world" where
  "emit e w = w\<lparr>trace := trace w @ [e]\<rparr>"

subsection \<open>Constants\<close>

definition batchSize :: nat where "batchSize = 500"

definition openAiChunkSize :: nat where "openAiChunkSize = 30"

definition openAiChunkDelay :: nat where "openAiChunkDelay = 20000"

definition openAiRateLimit :: rat where "openAiRateLimit = 30000"

text \<open>\<open>Math.ceil((60 / (openAiRateLimit / 880)) * 1000)\<close>, in exact arithmetic.\<close>

definition openAiRequestDelay :: nat where
  "openAiRequestDelay = nat \<lceil>(60 / (openAiRateLimit / 880)) * 1000\<rceil>"

subsection \<open>safeShopifyQuery\<close>

definition post_shopify :: "shopify_api \<Rightarrow> query \<Rightarrow> world \<Rightarrow> shopify_reply \<times> world" where
  "post_shopify api q w =
     (api (shopifyPosts w) q,
      emit (ShopifyPost q) (w\<lparr>shopifyPosts := Suc (shopifyPosts w)\<rparr>))"

partial_function (option) safeShopifyQuery ::
  "shopify_api \<Rightarrow> query \<Rightarrow> world \<Rightarrow> ((error + response) \<times> world) option" where
  "safeShopifyQuery api q w =
     (case post_shopify api q w of
        (Ok r, w1) \<Rightarrow> Some (Inr r, w1)
      | (Rejected st, w1) \<Rightarrow>
          if st = Some 429 then safeShopifyQuery api q (emit (Sleep 5000) w1)
          else Some (Inl (RequestError st), w1))"

declare safeShopifyQuery.simps [code]

subsection \<open>generateAltText\<close>

definition post_openai :: "openai_api \<Rightarrow> cell \<Rightarrow> world \<Rightarrow> openai_reply \<times> world" where
  "post_openai api imageUrl w =
     (api (openAiPosts w) imageUrl,
      emit (OpenAiPost imageUrl) (w\<lparr>openAiPosts := Suc (openAiPosts w)\<rparr>))"

text \<open>\<open>choices[0]?.message?.content?.trim() || "Empty Alt Text"\<close>\<close>

definition first_completion :: "string option list \<Rightarrow> string" where
  "first_completion choices =
     (case choices of
        [] \<Rightarrow> ''Empty Alt Text''
      | c # _ \<Rightarrow>
          (case c of
             None \<Rightarrow> ''Empty Alt Text''
           | Some content \<Rightarrow>
               if trim content = [] then ''Empty Alt Text'' else trim content))"

text \<open>
  The \<open>return\<close> is inside the \<open>try\<close>: reading \<open>choices[0]\<close> of a body without \<open>choices\<close>
  throws a TypeError that the \<open>catch\<close> takes for a failure of the call (it has no
  \<open>response\<close>, hence no rate-limit code).
\<close>

partial_function (option) generateAltText ::
  "openai_api \<Rightarrow> cell \<Rightarrow> world \<Rightarrow> (string \<times> world) option" where
  "generateAltText api imageUrl w =
     (case post_openai api imageUrl w of
        (Completed choices, w1) \<Rightarrow>
          (case choices of
             None \<Rightarrow> Some (''Error generating alt text'', w1)
           | Some cs \<Rightarrow> Some (first_completion cs, w1))
      | (Failed code, w1) \<Rightarrow>
          if code = Some ''rate_limit_exceeded''
          then generateAltText api imageUrl (emit (Sleep openAiRequestDelay) w1)
          else Some (''Error generating alt text'', w1))"

declare generateAltText.simps [code]

subsection \<open>The index builder\<close>

text \<open>\<open>endCursor ? JSON.stringify(endCursor) : "null"\<close>: an empty cursor is sent as \<open>null\<close>.\<close>

definition after_arg :: "string option \<Rightarrow> string option" where
  "after_arg endCursor =
     (case endCursor of
        None \<Rightarrow> None
      | Some c \<Rightarrow> if c = [] then None else Some c)"

text \<open>
  The start of each of the three fetch functions: \<open>shopifyFiles = {}\<close>, then the cache file
  is read and parsed if it exists. \<open>JSON.parse\<close> throws on a file that does not parse.
\<close>

definition load_cache :: "world \<Rightarrow> (error + unit) \<times> world" where
  "load_cache w =
     (let w0 = w\<lparr>shopifyFiles := Map.empty\<rparr>
      in case cacheFile w0 of
           Absent \<Rightarrow> (Inr (), w0)
         | Unparsable \<Rightarrow> (Inl SyntaxError, w0)
         | Stored cachedData \<Rightarrow> (Inr (), w0\<lparr>shopifyFiles := cachedData\<rparr>))"

text \<open>\<open>fs.promises.writeFile(cacheFile, JSON.stringify(shopifyFiles, null, 2))\<close>\<close>

definition save_cache :: "world \<Rightarrow> world" where
  "save_cache w = emit (WriteCache (shopifyFiles w)) (w\<lparr>cacheFile := Stored (shopifyFiles w)\<rparr>)"

text \<open>
  The three fetch functions have the same text but for the root field they read, the key
  they store under, and the place of \<open>endCursor = cursor\<close>. The key is the file name for
  \<open>files\<close>, \<open>fileName.concat('_collection')\<close> and \<open>fileName.concat('_product')\<close> for the others.
\<close>

fun key_suffix :: "category \<Rightarrow> string" where
  "key_suffix Files = []"
| "key_suffix Collections = ''_collection''"
| "key_suffix Products = ''_product''"

text \<open>\<open>if (fileName && url) shopifyFiles[key] = url\<close>, for a url already known to be truthy.\<close>

definition store_image :: "category \<Rightarrow> string \<Rightarrow> world \<Rightarrow> world" where
  "store_image cat url w =
     (let fileName = fileName_of url
      in if fileName \<noteq> []
         then w\<lparr>shopifyFiles := assign (shopifyFiles w) (fileName @ key_suffix cat) url\<rparr>
         else w)"

text \<open>
  The callback of \<open>filesData.forEach\<close> and of \<open>collectionsData.forEach\<close>. The \<open>return\<close> on
  a missing url leaves the callback before \<open>endCursor = cursor\<close>.
\<close>

fun image_edge_step :: "category \<Rightarrow> world \<times> string option \<Rightarrow> image_edge \<Rightarrow> world \<times> string option" where
  "image_edge_step cat (w, endCursor) e =
     (case image_url e of
        None \<Rightarrow> (emit (Warn (MissingUrl cat)) w, endCursor)
      | Some url \<Rightarrow>
          if url = [] then (emit (Warn (MissingUrl cat)) w, endCursor)
          else (store_image cat url w, Some (cursor e)))"

text \<open>
  The callbacks of \<open>productsData.forEach\<close>: the inner one over \<open>node.images.edges\<close>, whose
  \<open>return\<close> only leaves the inner callback, and the outer one, which always sets the cursor.
\<close>

definition product_image_step :: "world \<Rightarrow> string option \<Rightarrow> world" where
  "product_image_step w imageUrl =
     (case imageUrl of
        None \<Rightarrow> emit (Warn (MissingUrl Products)) w
      | Some url \<Rightarrow>
          if url = [] then emit (Warn (MissingUrl Products)) w
          else store_image Products url w)"

fun product_edge_step :: "world \<times> string option \<Rightarrow> product_edge \<Rightarrow> world \<times> string option" where
  "product_edge_step (w, endCursor) e =
     (foldl product_image_step w (p_image_urls e), Some (p_cursor e))"

text \<open>
  \<open>response.data?.data?.files?.edges || []\<close> and \<open>...?.pageInfo?.hasNextPage || false\<close>,
  and the same for the two other root fields.
\<close>

fun files_page :: "response \<Rightarrow> image_page" where
  "files_page (FilesData p) = p"
| "files_page _ = \<lparr>edges = [], hasNextPage = False\<rparr>"

fun collections_page :: "response \<Rightarrow> image_page" where
  "collections_page (CollectionsData p) = p"
| "collections_page _ = \<lparr>edges = [], hasNextPage = False\<rparr>"

fun products_page :: "response \<Rightarrow> product_page" where
  "products_page (ProductsData p) = p"
| "products_page _ = \<lparr>p_edges = [], p_hasNextPage = False\<rparr>"

text \<open>One turn of \<open>while (hasNextPage)\<close> after the reply: the new world, cursor and flag.\<close>

fun merge_response ::
  "category \<Rightarrow> response \<Rightarrow> world \<times> string option \<Rightarrow> (world \<times> string option) \<times> bool" where
  "merge_response Files response st =
     (foldl (image_edge_step Files) st (edges (files_page response)),
      hasNextPage (files_page response))"
| "merge_response Collections response st =
     (foldl (image_edge_step Collections) st (edges (collections_page response)),
      hasNextPage (collections_page response))"
| "merge_response Products response st =
     (foldl product_edge_step st (p_edges (products_page response)),
      p_hasNextPage (products_page response))"

partial_function (option) fetch_loop ::
  "shopify_api \<Rightarrow> category \<Rightarrow> string option \<Rightarrow> world \<Rightarrow> ((error + unit) \<times> world) option" where
  "fetch_loop api cat endCursor w =
     (case safeShopifyQuery api (Query cat (after_arg endCursor)) w of
        None \<Rightarrow> None
      | Some (Inl err, w1) \<Rightarrow> Some (Inl err, w1)
      | Some (Inr response, w1) \<Rightarrow>
          (case merge_response cat response (w1, endCursor) of
             ((w2, endCursor'), again) \<Rightarrow>
               if again then fetch_loop api cat endCursor' w2 else Some (Inr (), w2)))"

declare fetch_loop.simps [code]

text \<open>Sequencing of calls that may throw or never return.\<close>

definition and_then ::
  "((error + 'a) \<times> world) option \<Rightarrow> ('a \<Rightarrow> world \<Rightarrow> ((error + 'b) \<times> world) option)
     \<Rightarrow> ((error + 'b) \<times> world) option" where
  "and_then m f =
     (case m of
        None \<Rightarrow> None
      | Some (Inl err, w) \<Rightarrow> Some (Inl err, w)
      | Some (Inr x, w) \<Rightarrow> f x w)"

definition fetch_category :: "shopify_api \<Rightarrow> category \<Rightarrow> world \<Rightarrow> ((error + unit) \<times> world) option" where
  "fetch_category api cat w =
     and_then (Some (load_cache w)) (\<lambda>_ w0.
     and_then (fetch_loop api cat None w0) (\<lambda>_ w1.
     Some (Inr (), save_cache w1)))"

definition fetchContentImages :: "shopify_api \<Rightarrow> world \<Rightarrow> ((error + unit) \<times> world) option" where
  "fetchContentImages api = fetch_category api Files"

definition fetchCollectionImages :: "shopify_api \<Rightarrow> world \<Rightarrow> ((error + unit) \<times> world) option" where
  "fetchCollectionImages api = fetch_category api Collections"

definition fetchProductImages :: "shopify_api \<Rightarrow> world \<Rightarrow> ((error + unit) \<times> world) option" where
  "fetchProductImages api = fetch_category api Products"

definition fetchShopifyFiles :: "shopify_api \<Rightarrow> world \<Rightarrow> ((error + unit) \<times> world) option" where
  "fetchShopifyFiles api w =
     and_then (fetchContentImages api (w\<lparr>shopifyFiles := Map.empty\<rparr>)) (\<lambda>_ w1.
     and_then (fetchCollectionImages api w1) (\<lambda>_ w2.
     fetchProductImages api w2))"

subsection \<open>The enrichment engine\<close>

text \<open>JavaScript truthiness: of a string or \<open>undefined\<close>, and of what a property holds.\<close>

definition truthy :: "string option \<Rightarrow> bool" where
  "truthy v \<longleftrightarrow> (case v of None \<Rightarrow> False | Some s \<Rightarrow> s \<noteq> [])"

fun truthy_cell :: "cell option \<Rightarrow> bool" where
  "truthy_cell None \<longleftrightarrow> False"
| "truthy_cell (Some (Text s)) \<longleftrightarrow> s \<noteq> []"
| "truthy_cell (Some (Inherited name)) \<longleftrightarrow> True"

text \<open>
  The exact lookup and the single retry without the suffix: the value of \<open>matchedFile\<close>
  when the row is reached by \<open>if (!matchedFile)\<close> for the second time.
\<close>

definition matched_file :: "store \<Rightarrow> string \<Rightarrow> cell option" where
  "matched_file files fileName =
     (let matchedFile = lookup files fileName
      in if \<not> truthy_cell matchedFile
         then (let cleanedFileName = strip_suffix fileName in lookup files cleanedFileName)
         else matchedFile)"

text \<open>
  The body of \<open>for (const row of chunk)\<close>; \<open>i\<close> is the index of the chunk's first row,
  which the warnings print. The row object is changed in place: the body returns it.
\<close>

definition process_row ::
  "openai_api \<Rightarrow> nat \<Rightarrow> row \<Rightarrow> world \<Rightarrow> (row_object \<times> world) option" where
  "process_row gen i row w =
     (let fileName = map_option trim (row ''File Name'')
      in if \<not> truthy fileName then Some (object_of row, emit (Warn (NoFileName (i + 1))) w)
         else
           (let matchedFile = matched_file (shopifyFiles w) (the fileName)
            in if \<not> truthy_cell matchedFile
               then Some (object_of row, emit (Warn (NoMatch (i + 1) (the fileName))) w)
               else
                 (let row1 = (object_of row)(''Updated Link'' := matchedFile)
                  in if \<not> truthy_cell (row1 ''Alt Text'') \<and> truthy_cell (row1 ''Updated Link'')
                     then (case generateAltText gen (the (row1 ''Updated Link'')) w of
                             None \<Rightarrow> None
                           | Some (altText, w1) \<Rightarrow>
                               Some (row1(''Alt Text'' \<mapsto> Text altText), w1))
                     else Some (row1, w))))"

fun process_rows ::
  "openai_api \<Rightarrow> nat \<Rightarrow> row list \<Rightarrow> world \<Rightarrow> (row_object list \<times> world) option" where
  "process_rows gen i [] w = Some ([], w)"
| "process_rows gen i (row # chunk) w =
     (case process_row gen i row w of
        None \<Rightarrow> None
      | Some (row', w1) \<Rightarrow>
          (case process_rows gen i chunk w1 of
             None \<Rightarrow> None
           | Some (chunk', w2) \<Rightarrow> Some (row' # chunk', w2)))"

text \<open>
  \<open>for (let i = 0; i < rows.length; i += openAiChunkSize)\<close> with
  \<open>rows.slice(i, i + openAiChunkSize)\<close>. The chunks as the loop has left their rows so far
  are collected in \<open>done\<close>, in order: together they are the array \<open>rows\<close> after the loop.
  The wait follows every chunk, the last one too.
\<close>

function process_chunks ::
  "openai_api \<Rightarrow> row list \<Rightarrow> nat \<Rightarrow> row_object list list \<Rightarrow> world
     \<Rightarrow> (row_object list list \<times> world) option" where
  "process_chunks gen rows i done w =
     (if i < length rows
      then (case process_rows gen i (take openAiChunkSize (drop i rows)) w of
              None \<Rightarrow> None
            | Some (chunk', w1) \<Rightarrow>
                process_chunks gen rows (i + openAiChunkSize) (done @ [chunk'])
                  (emit (Sleep openAiChunkDelay) w1))
      else Some (done, w))"
  by pat_completeness auto
termination
  by (relation "measure (\<lambda>(gen, rows, i, done, w). length rows - i)")
     (auto simp: openAiChunkSize_def)

declare process_chunks.simps [simp del]

text \<open>\<open>rows.map(({ "Updated Link": _, ...rest }) => rest)\<close>\<close>

definition without_link :: "row_object \<Rightarrow> row_object" where
  "without_link row = row(''Updated Link'' := None)"

text \<open>\<open>csvWriter.writeRecords\<close> is taken to accept every batch.\<close>

definition processBatch :: "openai_api \<Rightarrow> row list \<Rightarrow> world \<Rightarrow> world option" where
  "processBatch gen rows w =
     (case process_chunks gen rows 0 [] w of
        None \<Rightarrow> None
      | Some (chunks, w1) \<Rightarrow> Some (emit (WriteRecords (map without_link (concat chunks))) w1))"

text \<open>
  The handler of the stream's \<open>end\<close>, once every row has been pushed on \<open>batch\<close>:
  \<open>for (let i = 0; i < batch.length; i += batchSize)\<close> with \<open>batch.slice(i, i + batchSize)\<close>.
\<close>

function process_batches :: "openai_api \<Rightarrow> row list \<Rightarrow> nat \<Rightarrow> world \<Rightarrow> world option" where
  "process_batches gen batch i w =
     (if i < length batch
      then (case processBatch gen (take batchSize (drop i batch)) w of
              None \<Rightarrow> None
            | Some w1 \<Rightarrow> process_batches gen batch (i + batchSize) w1)
      else Some w)"
  by pat_completeness auto
termination
  by (relation "measure (\<lambda>(gen, batch, i, w). length batch - i)")
     (auto simp: batchSize_def)

declare process_batches.simps [simp del]

definition processCsv :: "openai_api \<Rightarrow> row list \<Rightarrow> world \<Rightarrow> world option" where
  "processCsv gen input w = process_batches gen input 0 w"

subsection \<open>The run\<close>

text \<open>
  The closing async function: a cache file that exists is parsed and the builder is not
  called; \<open>fetchShopifyFiles\<close> runs only when there is no file.
\<close>

definition run :: "shopify_api \<Rightarrow> openai_api \<Rightarrow> row list \<Rightarrow> world \<Rightarrow> ((error + unit) \<times> world) option" where
  "run api gen input w =
     and_then
       (case cacheFile w of
          Stored cachedData \<Rightarrow> Some (Inr (), w\<lparr>shopifyFiles := cachedData\<rparr>)
        | Unparsable \<Rightarrow> Some (Inl SyntaxError, w)
        | Absent \<Rightarrow> fetchShopifyFiles api w)
       (\<lambda>_ w1. map_option (Pair (Inr ())) (processCsv gen input w1))"

text \<open>The process at its start: nothing posted, \<open>shopifyFiles = {}\<close>.\<close>

definition start :: "cache_file \<Rightarrow> world" where
  "start file = \<lparr>shopifyFiles = Map.empty, cacheFile = file, shopifyPosts = 0, openAiPosts = 0, trace = []\<rparr>"

subsection \<open>What a trace shows\<close>

text \<open>The batches handed to \<open>csvWriter.writeRecords\<close>, in order.\<close>

fun writes :: "event list \<Rightarrow> row_object list list" where
  "writes [] = []"
| "writes (WriteRecords batch # es) = batch # writes es"
| "writes (_ # es) = writes es"

text \<open>The number of waits between chunks.\<close>

fun is_chunk_wait :: "event \<Rightarrow> bool" where
  "is_chunk_wait (Sleep ms) \<longleftrightarrow> ms = openAiChunkDelay"
| "is_chunk_wait _ \<longleftrightarrow> False"

definition chunk_waits :: "event list \<Rightarrow> nat" where
  "chunk_waits es = length (filter is_chunk_wait es)"

text \<open>
  An output row against its input row: no \<open>Updated Link\<close>; the input's value in every
  column but \<open>Alt Text\<close> and \<open>Updated Link\<close>; and in \<open>Alt Text\<close> the input's value, or
  a text that is not empty where the input had none.
\<close>

fun text_of :: "cell option \<Rightarrow> string option" where
  "text_of (Some (Text s)) = Some s"
| "text_of _ = None"

definition written_for :: "row \<Rightarrow> row_object \<Rightarrow> bool" where
  "written_for row out \<longleftrightarrow>
     out ''Updated Link'' = None \<and>
     (\<forall>column. column \<noteq> ''Alt Text'' \<and> column \<noteq> ''Updated Link''
        \<longrightarrow> out column = map_option Text (row column)) \<and>
     (out ''Alt Text'' = map_option Text (row ''Alt Text'') \<or>
      \<not> truthy (row ''Alt Text'') \<and>
        truthy (text_of (out ''Alt Text'')))"


text \<open>The queries posted to the source API and the stores written to the cache file, in order.\<close>

fun posts :: "event list \<Rightarrow> query list" where
  "posts [] = []"
| "posts (ShopifyPost q # es) = q # posts es"
| "posts (_ # es) = posts es"

fun persists :: "event list \<Rightarrow> store list" where
  "persists [] = []"
| "persists (WriteCache files # es) = files # persists es"
| "persists (_ # es) = persists es"

text \<open>What the handling of one row leaves as it was.\<close>

definition quiet :: "world \<Rightarrow> world \<Rightarrow> bool" where
  "quiet w w' \<longleftrightarrow>
     writes (trace w') = writes (trace w) \<and>
     chunk_waits (trace w') = chunk_waits (trace w) \<and>
     posts (trace w') = posts (trace w) \<and>
     persists (trace w') = persists (trace w) \<and>
     shopifyFiles w' = shopifyFiles w \<and> cacheFile w' = cacheFile w \<and>
     shopifyPosts w' = shopifyPosts w"

text \<open>What the enrichment engine as a whole leaves as it was: the index and its source.\<close>

definition offline :: "world \<Rightarrow> world \<Rightarrow> bool" where
  "offline w w' \<longleftrightarrow>
     posts (trace w') = posts (trace w) \<and>
     persists (trace w') = persists (trace w) \<and>
     shopifyFiles w' = shopifyFiles w \<and> cacheFile w' = cacheFile w \<and>
     shopifyPosts w' = shopifyPosts w"

text \<open>A generation service that does not answer a url with the rate limit forever.\<close>

definition answers :: "openai_api \<Rightarrow> bool" where
  "answers gen \<longleftrightarrow> (\<forall>k url. \<exists>n. gen (k + n) url \<noteq> Failed (Some ''rate_limit_exceeded''))"


subsection \<open>What a sweep stores and asks\<close>

text \<open>
  The entry an item contributes to the index: none without a url, with an empty url, or
  with a url whose file name is empty.
\<close>

definition entry_of :: "category \<Rightarrow> string option \<Rightarrow> (string \<times> string) list" where
  "entry_of cat imageUrl =
     (case imageUrl of
        None \<Rightarrow> []
      | Some url \<Rightarrow>
          if url = [] \<or> fileName_of url = [] then []
          else [(fileName_of url @ key_suffix cat, url)])"

text \<open>The entries of a reply as a sweep of the category reads it, in the order of the items.\<close>

fun entries_of :: "category \<Rightarrow> response \<Rightarrow> (string \<times> string) list" where
  "entries_of Files response =
     concat (map (\<lambda>e. entry_of Files (image_url e)) (edges (files_page response)))"
| "entries_of Collections response =
     concat (map (\<lambda>e. entry_of Collections (image_url e)) (edges (collections_page response)))"
| "entries_of Products response =
     concat (map (\<lambda>e. concat (map (entry_of Products) (p_image_urls e)))
                 (p_edges (products_page response)))"

text \<open>Whether the reply tells a sweep of the category to go on.\<close>

fun has_next :: "category \<Rightarrow> response \<Rightarrow> bool" where
  "has_next Files response = hasNextPage (files_page response)"
| "has_next Collections response = hasNextPage (collections_page response)"
| "has_next Products response = p_hasNextPage (products_page response)"

text \<open>
  The cursor of the last edge of a reply: for \<open>files\<close> and \<open>collections\<close> only when that
  edge has a url, for \<open>products\<close> whenever there is an edge.
\<close>

fun last_cursor :: "category \<Rightarrow> response \<Rightarrow> string option" where
  "last_cursor Files response =
     (case rev (edges (files_page response)) of
        [] \<Rightarrow> None
      | e # _ \<Rightarrow> if truthy (image_url e) then Some (cursor e) else None)"
| "last_cursor Collections response =
     (case rev (edges (collections_page response)) of
        [] \<Rightarrow> None
      | e # _ \<Rightarrow> if truthy (image_url e) then Some (cursor e) else None)"
| "last_cursor Products response =
     (case rev (p_edges (products_page response)) of
        [] \<Rightarrow> None
      | e # _ \<Rightarrow> Some (p_cursor e))"

text \<open>Entries assigned to a store one after the other: the last one of a key stays.\<close>

definition put_all :: "store \<Rightarrow> (string \<times> string) list \<Rightarrow> store" where
  "put_all files entries = foldl (\<lambda>m (key, url). assign m key url) files entries"

text \<open>What a sweep starts from: the content of the cache file, or nothing.\<close>

definition cached :: "world \<Rightarrow> store" where
  "cached w = (case cacheFile w of Stored files \<Rightarrow> files | _ \<Rightarrow> Map.empty)"

text \<open>
  A source API that answers the next requests with the given replies in turn, whatever
  the query, and tells the sweep of the category to go on with all but the last.
\<close>

definition serves :: "shopify_api \<Rightarrow> nat \<Rightarrow> category \<Rightarrow> response list \<Rightarrow> bool" where
  "serves api k cat replies \<longleftrightarrow>
     replies \<noteq> [] \<and>
     (\<forall>i<length replies. \<forall>q. api (k + i) q = Ok (replies ! i)) \<and>
     (\<forall>i<length replies. has_next cat (replies ! i) \<longleftrightarrow> Suc i < length replies)"

text \<open>What the reading of a reply changes: the index, by the entries, and nothing else.\<close>

definition merged :: "world \<Rightarrow> (string \<times> string) list \<Rightarrow> world \<Rightarrow> bool" where
  "merged w entries w' \<longleftrightarrow>
     shopifyFiles w' = put_all (shopifyFiles w) entries \<and>
     cacheFile w' = cacheFile w \<and>
     shopifyPosts w' = shopifyPosts w \<and> openAiPosts w' = openAiPosts w \<and>
     posts (trace w') = posts (trace w) \<and>
     persists (trace w') = persists (trace w) \<and>
     writes (trace w') = writes (trace w)"

subsection \<open>Inputs for the examples\<close>

definition shoe_url :: string where
  "shoe_url = ''https://cdn.shopify.com/s/files/1/0001/files/shoe.jpg?v=1700000000''"

definition shoe_product_url :: string where
  "shoe_product_url = ''https://cdn.shopify.com/s/files/1/0001/products/shoe.jpg?v=1700000001''"

text \<open>A no-break space, U+00A0.\<close>

definition nbsp :: string where
  "nbsp = [CHR 0xC2, CHR 0xA0]"

text \<open>A generation service that describes every image at once.\<close>

definition describes :: openai_api where
  "describes = (\<lambda>_ _. Completed (Some [Some ''A red shoe'']))"

text \<open>A world whose index holds the content image of the shoe only.\<close>

definition indexed :: world where
  "indexed = (start Absent)\<lparr>shopifyFiles := [''shoe.jpg'' \<mapsto> shoe_url]\<rparr>"

definition shoe_row :: row where
  "shoe_row = [''ID'' \<mapsto> ''1'', ''File Name'' \<mapsto> nbsp @ ''shoe.jpg_product '',
                ''Alt Text'' \<mapsto> []]"

definition hat_row :: row where
  "hat_row = [''ID'' \<mapsto> ''2'', ''File Name'' \<mapsto> ''hat.jpg_product_collection'']"

definition described_row :: row where
  "described_row = [''ID'' \<mapsto> ''3'', ''File Name'' \<mapsto> ''shoe.jpg'', ''Alt Text'' \<mapsto> ''An old text'']"

text \<open>
  A second content image named \<open>shoe.jpg\<close>, in another directory, and a one-page source of
  \<open>files\<close> with both images.
\<close>

definition other_shoe_url :: string where
  "other_shoe_url = ''https://cdn.shopify.com/s/files/1/0001/files/sale/shoe.jpg?v=1700000002''"

definition twin_page :: image_page where
  "twin_page =
     \<lparr>edges = [\<lparr>cursor = ''c1'', image_url = Some shoe_url\<rparr>,
               \<lparr>cursor = ''c2'', image_url = Some other_shoe_url\<rparr>],
      hasNextPage = False\<rparr>"

definition twin_source :: shopify_api where
  "twin_source = (\<lambda>_ _. Ok (FilesData twin_page))"

text \<open>
  A source with one page of each collection: the content image of the shoe and a file that
  is not an image; no collection; one product with the product image of the shoe.
\<close>

definition shop_files :: image_page where
  "shop_files =
     \<lparr>edges = [\<lparr>cursor = ''f1'', image_url = Some shoe_url\<rparr>,
               \<lparr>cursor = ''f2'', image_url = None\<rparr>],
      hasNextPage = False\<rparr>"

definition shop_products :: product_page where
  "shop_products =
     \<lparr>p_edges = [\<lparr>p_cursor = ''p1'', p_image_urls = [Some shoe_product_url]\<rparr>],
      p_hasNextPage = False\<rparr>"

definition shop :: shopify_api where
  "shop = (\<lambda>k _. if k = 0 then Ok (FilesData shop_files)
                  else if k = 1 then Ok (CollectionsData \<lparr>edges = [], hasNextPage = False\<rparr>)
                  else Ok (ProductsData shop_products))"

text \<open>A cache file left by an earlier run, with one entry.\<close>

definition old_cache :: store where
  "old_cache = [''hat.jpg'' \<mapsto> ''https://cdn.shopify.com/s/files/1/0001/files/hat.jpg?v=1600000000'']"

text \<open>What the sweep of \<open>files\<close> leaves when \<open>twin_source\<close> is asked from a fresh start.\<close>

definition twin_result :: world where
  "twin_result =
     \<lparr>shopifyFiles = [''shoe.jpg'' \<mapsto> other_shoe_url],
      cacheFile = Stored [''shoe.jpg'' \<mapsto> other_shoe_url],
      shopifyPosts = 1, openAiPosts = 0,
      trace = [ShopifyPost (Query Files None), WriteCache [''shoe.jpg'' \<mapsto> other_shoe_url]]\<rparr>"

text \<open>
  A source of \<open>files\<close> in two pages: the shoe, then a hat and a file that is not an image.
\<close>

definition hat_url :: string where
  "hat_url = ''https://cdn.shopify.com/s/files/1/0001/files/hat.jpg?v=1700000003''"

definition two_pages :: "response list" where
  "two_pages =
     [FilesData \<lparr>edges = [\<lparr>cursor = ''a1'', image_url = Some shoe_url\<rparr>], hasNextPage = True\<rparr>,
      FilesData \<lparr>edges = [\<lparr>cursor = ''b1'', image_url = Some hat_url\<rparr>,
                          \<lparr>cursor = ''b2'', image_url = None\<rparr>], hasNextPage = False\<rparr>]"

definition paged_source :: shopify_api where
  "paged_source = (\<lambda>k _. Ok (two_pages ! (if k = 0 then 0 else 1)))"

text \<open>What a run over no rows leaves when the cache file of an earlier run is there.\<close>

definition cached_result :: world where
  "cached_result =
     \<lparr>shopifyFiles = old_cache, cacheFile = Stored old_cache,
      shopifyPosts = 0, openAiPosts = 0, trace = []\<rparr>"

text \<open>
  A source of \<open>files\<close> in two pages, the first of which ends with a file that is not an
  image, and what its sweep leaves from a fresh start.
\<close>

definition mixed_pages :: "response list" where
  "mixed_pages =
     [FilesData \<lparr>edges = [\<lparr>cursor = ''m1'', image_url = Some shoe_url\<rparr>,
                          \<lparr>cursor = ''m2'', image_url = None\<rparr>], hasNextPage = True\<rparr>,
      FilesData \<lparr>edges = [\<lparr>cursor = ''n1'', image_url = Some hat_url\<rparr>], hasNextPage = False\<rparr>]"

definition mixed_source :: shopify_api where
  "mixed_source = (\<lambda>k _. Ok (mixed_pages ! (if k = 0 then 0 else 1)))"

definition mixed_result :: world where
  "mixed_result =
     \<lparr>shopifyFiles = [''shoe.jpg'' \<mapsto> shoe_url, ''hat.jpg'' \<mapsto> hat_url],
      cacheFile = Stored [''shoe.jpg'' \<mapsto> shoe_url, ''hat.jpg'' \<mapsto> hat_url],
      shopifyPosts = Suc (Suc 0), openAiPosts = 0,
      trace = [ShopifyPost (Query Files None), Warn (MissingUrl Files),
               ShopifyPost (Query Files (Some ''m1'')),
               WriteCache [''shoe.jpg'' \<mapsto> shoe_url, ''hat.jpg'' \<mapsto> hat_url]]\<rparr>"

text \<open>
  A content image whose file name is \<open>__proto__\<close>, a one-page source of \<open>files\<close> with
  it, and what its sweep leaves from a fresh start.
\<close>

definition proto_url :: string where
  "proto_url = ''https://cdn.shopify.com/s/files/1/0001/files/__proto__?v=1700000004''"

definition proto_page :: image_page where
  "proto_page = \<lparr>edges = [\<lparr>cursor = ''x1'', image_url = Some proto_url\<rparr>], hasNextPage = False\<rparr>"

definition proto_source :: shopify_api where
  "proto_source = (\<lambda>_ _. Ok (FilesData proto_page))"

definition proto_result :: world where
  "proto_result =
     \<lparr>shopifyFiles = Map.empty, cacheFile = Stored Map.empty,
      shopifyPosts = Suc 0, openAiPosts = 0,
      trace = [ShopifyPost (Query Files None), WriteCache Map.empty]\<rparr>"

text \<open>
  A row whose file name is the name of a method of every object, and one whose file name
  becomes such a name when the suffix is taken off.
\<close>

definition method_row :: row where
  "method_row = [''ID'' \<mapsto> ''4'', ''File Name'' \<mapsto> ''toString'']"

definition method_product_row :: row where
  "method_product_row = [''ID'' \<mapsto> ''5'', ''File Name'' \<mapsto> ''constructor_product'']"

text \<open>A generation service whose successful body has no \<open>choices\<close>.\<close>

definition unfinished :: openai_api where
  "unfinished = (\<lambda>_ _. Completed None)"

text \<open>What asking \<open>unfinished\<close> once leaves, from a fresh start.\<close>

definition unfinished_result :: world where
  "unfinished_result =
     \<lparr>shopifyFiles = Map.empty, cacheFile = Absent, shopifyPosts = 0, openAiPosts = Suc 0,
      trace = [OpenAiPost (Text shoe_url)]\<rparr>"

section \<open>Properties\<close>

subsection \<open>Trimming\<close>

lemma starts_with_simps:
  "starts_with [] s \<longleftrightarrow> True"
  "starts_with (c # pre) [] \<longleftrightarrow> False"
  "starts_with (c # pre) (d # s) \<longleftrightarrow> c = d \<and> starts_with pre s"
  by (auto simp: starts_with_def)

lemma trim_examples:
  "trim (nbsp @ ''A red shoe. '') = ''A red shoe.''"
  "trim (nbsp @ '' '') = []"
  "trim ''A red shoe'' = ''A red shoe''"
  "trim (nbsp @ ''shoe.jpg_product '') = ''shoe.jpg_product''"
  "trim ''hat.jpg_product_collection'' = ''hat.jpg_product_collection''"
  "trim ''shoe.jpg'' = ''shoe.jpg''"
  "trim ''toString'' = ''toString''"
  "trim ''constructor_product'' = ''constructor_product''"
  by (simp_all add: trim_def nbsp_def white_space_def starts_with_simps ends_with_def)

subsection \<open>The retrying request\<close>

lemma safeShopifyQuery_retry:
  "(\<forall>i<n. api (shopifyPosts w + i) q = Rejected (Some 429)) \<Longrightarrow>
   safeShopifyQuery api q w =
   safeShopifyQuery api q
     (w\<lparr>shopifyPosts := shopifyPosts w + n,
        trace := trace w @ concat (replicate n [ShopifyPost q, Sleep 5000])\<rparr>)"
proof (induction n arbitrary: w)
  case 0
  then show ?case by simp
next
  case (Suc n)
  let ?w2 = "emit (Sleep 5000) (emit (ShopifyPost q) (w\<lparr>shopifyPosts := Suc (shopifyPosts w)\<rparr>))"
  from Suc.prems have r0: "api (shopifyPosts w) q = Rejected (Some 429)"
    by (metis add.right_neutral zero_less_Suc)
  have step: "safeShopifyQuery api q w = safeShopifyQuery api q ?w2"
    by (subst safeShopifyQuery.simps) (simp add: post_shopify_def r0)
  have "api (shopifyPosts ?w2 + i) q = Rejected (Some 429)" if "i < n" for i
    using Suc.prems [rule_format, of "Suc i"] that by (simp add: emit_def)
  then have "\<forall>i<n. api (shopifyPosts ?w2 + i) q = Rejected (Some 429)" by blast
  from Suc.IH [OF this] show ?case
    unfolding step by (simp add: emit_def)
qed

lemma safeShopifyQuery_settles:
  assumes "\<forall>i<n. api (shopifyPosts w + i) q = Rejected (Some 429)"
    and "api (shopifyPosts w + n) q = reply"
    and "reply \<noteq> Rejected (Some 429)"
  shows "safeShopifyQuery api q w =
         Some (case reply of Ok r \<Rightarrow> Inr r | Rejected st \<Rightarrow> Inl (RequestError st),
               w\<lparr>shopifyPosts := shopifyPosts w + n + 1,
                  trace := trace w @ concat (replicate n [ShopifyPost q, Sleep 5000])
                             @ [ShopifyPost q]\<rparr>)"
proof -
  let ?w' = "w\<lparr>shopifyPosts := shopifyPosts w + n,
        trace := trace w @ concat (replicate n [ShopifyPost q, Sleep 5000])\<rparr>"
  have "safeShopifyQuery api q w = safeShopifyQuery api q ?w'"
    using assms(1) by (rule safeShopifyQuery_retry)
  also have "\<dots> = Some (case reply of Ok r \<Rightarrow> Inr r | Rejected st \<Rightarrow> Inl (RequestError st),
               w\<lparr>shopifyPosts := shopifyPosts w + n + 1,
                  trace := trace w @ concat (replicate n [ShopifyPost q, Sleep 5000])
                             @ [ShopifyPost q]\<rparr>)"
    using assms(2,3)
    by (subst safeShopifyQuery.simps)
       (auto simp: post_shopify_def emit_def split: shopify_reply.splits)
  finally show ?thesis .
qed

lemma safeShopifyQuery_forever:
  assumes rl: "\<forall>k. api k q = Rejected (Some 429)"
  shows "safeShopifyQuery api q w = None"
proof (cases "safeShopifyQuery api q w")
  case None
  then show ?thesis .
next
  case (Some y)
  have "(\<forall>k. api k q = Rejected (Some 429)) \<longrightarrow> False"
  proof (rule safeShopifyQuery.raw_induct
      [where P = "\<lambda>a u _ _. (\<forall>k. a k u = Rejected (Some 429)) \<longrightarrow> False", OF _ Some])
    fix f a u w0 y0
    assume IH: "\<And>u' w' b y'. f u' w' b = Some y' \<Longrightarrow>
                  (\<forall>k. u' k w' = Rejected (Some 429)) \<longrightarrow> False"
      and eq: "(case post_shopify a u w0 of
                  (Ok r, w1) \<Rightarrow> Some (Inr r, w1)
                | (Rejected st, w1) \<Rightarrow>
                    if st = Some 429 then f a u (emit (Sleep 5000) w1)
                    else Some (Inl (RequestError st), w1)) = Some y0"
    show "(\<forall>k. a k u = Rejected (Some 429)) \<longrightarrow> False"
    proof
      assume all: "\<forall>k. a k u = Rejected (Some 429)"
      from eq all have "f a u (emit (Sleep 5000) (snd (post_shopify a u w0))) = Some y0"
        by (simp add: post_shopify_def)
      from IH [OF this] all show False by blast
    qed
  qed
  with rl show ?thesis by blast
qed

text \<open>
  C8. A request through \<open>safeShopifyQuery\<close> that is answered with status 429 any number
  \<open>n\<close> of times and then with anything else is posted \<open>n + 1\<close> times, with a wait of
  5000 ms after each 429, and gives the caller what the last reply gives: the response, or
  the error of a reply that is not a 429, which is thrown at once. Nothing of the retries
  reaches the caller. No number of 429 replies makes it give up: a source that always
  answers 429 is asked forever.
\<close>

theorem safeShopifyQuery_rate_limit:
  "((\<forall>i<n. api (shopifyPosts w + i) q = Rejected (Some 429)) \<and>
    api (shopifyPosts w + n) q = reply \<and> reply \<noteq> Rejected (Some 429) \<longrightarrow>
    safeShopifyQuery api q w =
      Some (case reply of Ok r \<Rightarrow> Inr r | Rejected st \<Rightarrow> Inl (RequestError st),
            w\<lparr>shopifyPosts := shopifyPosts w + n + 1,
               trace := trace w @ concat (replicate n [ShopifyPost q, Sleep 5000])
                          @ [ShopifyPost q]\<rparr>)) \<and>
   ((\<forall>k. api k q = Rejected (Some 429)) \<longrightarrow> safeShopifyQuery api q w = None)"
  using safeShopifyQuery_settles [of n api w q reply] safeShopifyQuery_forever [of api q w]
  by blast

theorem safeShopifyQuery_rate_limit_witness:
  "safeShopifyQuery (\<lambda>k _. if k < 2 then Rejected (Some 429) else Rejected (Some 500))
     (Query Files None) (start Absent) =
   Some (Inl (RequestError (Some 500)),
         (start Absent)\<lparr>shopifyPosts := 3,
            trace := [ShopifyPost (Query Files None), Sleep 5000,
                      ShopifyPost (Query Files None), Sleep 5000,
                      ShopifyPost (Query Files None)]\<rparr>) \<and>
   safeShopifyQuery (\<lambda>k _. if k < 1 then Rejected (Some 429) else Ok NoData)
     (Query Files None) (start Absent) =
   Some (Inr NoData,
         (start Absent)\<lparr>shopifyPosts := 2,
            trace := [ShopifyPost (Query Files None), Sleep 5000,
                      ShopifyPost (Query Files None)]\<rparr>) \<and>
   safeShopifyQuery (\<lambda>_ _. Rejected (Some 429)) (Query Files None) (start Absent) = None"
  using safeShopifyQuery_rate_limit
      [of 2 "\<lambda>k _. if k < 2 then Rejected (Some 429) else Rejected (Some 500)"
          "start Absent" "Query Files None" "Rejected (Some 500)"]
    safeShopifyQuery_rate_limit
      [of 1 "\<lambda>k _. if k < 1 then Rejected (Some 429) else Ok NoData"
          "start Absent" "Query Files None" "Ok NoData"]
    safeShopifyQuery_rate_limit
      [of 0 "\<lambda>_ _. Rejected (Some 429)" "start Absent" "Query Files None" "Ok NoData"]
  by (simp add: start_def numeral_2_eq_2 numeral_3_eq_3)

subsection \<open>The generation call\<close>

lemma generateAltText_retry:
  "(\<forall>i<n. gen (openAiPosts w + i) url = Failed (Some ''rate_limit_exceeded'')) \<Longrightarrow>
   generateAltText gen url w =
   generateAltText gen url
     (w\<lparr>openAiPosts := openAiPosts w + n,
        trace := trace w @ concat (replicate n [OpenAiPost url, Sleep openAiRequestDelay])\<rparr>)"
proof (induction n arbitrary: w)
  case 0
  then show ?case by simp
next
  case (Suc n)
  let ?w2 = "emit (Sleep openAiRequestDelay)
               (emit (OpenAiPost url) (w\<lparr>openAiPosts := Suc (openAiPosts w)\<rparr>))"
  from Suc.prems have r0: "gen (openAiPosts w) url = Failed (Some ''rate_limit_exceeded'')"
    by (metis add.right_neutral zero_less_Suc)
  have step: "generateAltText gen url w = generateAltText gen url ?w2"
    by (subst generateAltText.simps) (simp add: post_openai_def r0)
  have "gen (openAiPosts ?w2 + i) url = Failed (Some ''rate_limit_exceeded'')" if "i < n" for i
    using Suc.prems [rule_format, of "Suc i"] that by (simp add: emit_def)
  then have "\<forall>i<n. gen (openAiPosts ?w2 + i) url = Failed (Some ''rate_limit_exceeded'')"
    by blast
  from Suc.IH [OF this] show ?case
    unfolding step by (simp add: emit_def)
qed

lemma generateAltText_settles:
  assumes "\<forall>i<n. gen (openAiPosts w + i) url = Failed (Some ''rate_limit_exceeded'')"
    and "gen (openAiPosts w + n) url = reply"
    and "reply \<noteq> Failed (Some ''rate_limit_exceeded'')"
  shows "generateAltText gen url w =
         Some (case reply of
                 Completed None \<Rightarrow> ''Error generating alt text''
               | Completed (Some cs) \<Rightarrow> first_completion cs
               | Failed code \<Rightarrow> ''Error generating alt text'',
               w\<lparr>openAiPosts := openAiPosts w + n + 1,
                  trace := trace w
                    @ concat (replicate n [OpenAiPost url, Sleep openAiRequestDelay])
                    @ [OpenAiPost url]\<rparr>)"
proof -
  let ?w' = "w\<lparr>openAiPosts := openAiPosts w + n,
        trace := trace w @ concat (replicate n [OpenAiPost url, Sleep openAiRequestDelay])\<rparr>"
  have "generateAltText gen url w = generateAltText gen url ?w'"
    using assms(1) by (rule generateAltText_retry)
  also have "\<dots> = Some (case reply of
                 Completed None \<Rightarrow> ''Error generating alt text''
               | Completed (Some cs) \<Rightarrow> first_completion cs
               | Failed code \<Rightarrow> ''Error generating alt text'',
               w\<lparr>openAiPosts := openAiPosts w + n + 1,
                  trace := trace w
                    @ concat (replicate n [OpenAiPost url, Sleep openAiRequestDelay])
                    @ [OpenAiPost url]\<rparr>)"
    using assms(2,3)
    by (subst generateAltText.simps)
       (auto simp: post_openai_def emit_def split: openai_reply.splits option.splits)
  finally show ?thesis .
qed

lemma generateAltText_forever:
  assumes rl: "\<forall>k. gen k url = Failed (Some ''rate_limit_exceeded'')"
  shows "generateAltText gen url w = None"
proof (cases "generateAltText gen url w")
  case None
  then show ?thesis .
next
  case (Some y)
  have "(\<forall>k. gen k url = Failed (Some ''rate_limit_exceeded'')) \<longrightarrow> False"
  proof (rule generateAltText.raw_induct
      [where P = "\<lambda>a u _ _. (\<forall>k. a k u = Failed (Some ''rate_limit_exceeded'')) \<longrightarrow> False",
        OF _ Some])
    fix f a u w0 y0
    assume IH: "\<And>u' w' b y'. f u' w' b = Some y' \<Longrightarrow>
                  (\<forall>k. u' k w' = Failed (Some ''rate_limit_exceeded'')) \<longrightarrow> False"
      and eq: "(case post_openai a u w0 of
                  (Completed None, w1) \<Rightarrow> Some (''Error generating alt text'', w1)
                | (Completed (Some cs), w1) \<Rightarrow> Some (first_completion cs, w1)
                | (Failed code, w1) \<Rightarrow>
                    if code = Some ''rate_limit_exceeded''
                    then f a u (emit (Sleep openAiRequestDelay) w1)
                    else Some (''Error generating alt text'', w1)) = Some y0"
    show "(\<forall>k. a k u = Failed (Some ''rate_limit_exceeded'')) \<longrightarrow> False"
    proof
      assume all: "\<forall>k. a k u = Failed (Some ''rate_limit_exceeded'')"
      from eq all
      have "f a u (emit (Sleep openAiRequestDelay) (snd (post_openai a u w0))) = Some y0"
        by (simp add: post_openai_def)
      from IH [OF this] all show False by blast
    qed
  qed
  with rl show ?thesis by blast
qed

text \<open>The same value comes out of the double-precision evaluation of the source.\<close>

lemma openAiRequestDelay_eq: "openAiRequestDelay = 1760"
  by (simp add: openAiRequestDelay_def openAiRateLimit_def)

text \<open>
  C7. A generation call that is answered with the code \<open>rate_limit_exceeded\<close> any number
  \<open>n\<close> of times and then with anything else posts \<open>n + 1\<close> requests and waits
  \<open>openAiRequestDelay\<close> after each rate-limited one; one rate-limited reply followed by a
  completion is one retry. If the last reply is a completion whose first content is not
  blank, the call returns that content trimmed; if it is a failure with any other code or
  none, the call returns \<open>"Error generating alt text"\<close> after that single request, so the
  caller gets a value and goes on. A service that is always rate-limited is asked forever.
  The delay is \<open>60 / (openAiRateLimit / 880)\<close> seconds, rounded up to milliseconds: the
  time one call of 880 tokens takes out of a budget of \<open>openAiRateLimit\<close> tokens a
  minute, 1760 ms.
\<close>

theorem generateAltText_rate_limit:
  "((\<forall>i<n. gen (openAiPosts w + i) url = Failed (Some ''rate_limit_exceeded'')) \<and>
    gen (openAiPosts w + n) url = reply \<and> reply \<noteq> Failed (Some ''rate_limit_exceeded'') \<longrightarrow>
    (\<exists>altText.
       generateAltText gen url w =
         Some (altText,
               w\<lparr>openAiPosts := openAiPosts w + n + 1,
                  trace := trace w
                    @ concat (replicate n [OpenAiPost url, Sleep openAiRequestDelay])
                    @ [OpenAiPost url]\<rparr>) \<and>
       (\<forall>content cs. reply = Completed (Some (Some content # cs)) \<and> trim content \<noteq> []
                      \<longrightarrow> altText = trim content) \<and>
       (\<forall>code. reply = Failed code \<longrightarrow> altText = ''Error generating alt text''))) \<and>
   ((\<forall>k. gen k url = Failed (Some ''rate_limit_exceeded'')) \<longrightarrow> generateAltText gen url w = None) \<and>
   openAiRequestDelay = nat \<lceil>(60 / (openAiRateLimit / 880)) * 1000\<rceil> \<and>
   openAiRequestDelay = 1760"
proof (intro conjI impI)
  assume h: "(\<forall>i<n. gen (openAiPosts w + i) url = Failed (Some ''rate_limit_exceeded'')) \<and>
    gen (openAiPosts w + n) url = reply \<and> reply \<noteq> Failed (Some ''rate_limit_exceeded'')"
  then have "generateAltText gen url w =
         Some (case reply of
                 Completed None \<Rightarrow> ''Error generating alt text''
               | Completed (Some cs) \<Rightarrow> first_completion cs
               | Failed code \<Rightarrow> ''Error generating alt text'',
               w\<lparr>openAiPosts := openAiPosts w + n + 1,
                  trace := trace w
                    @ concat (replicate n [OpenAiPost url, Sleep openAiRequestDelay])
                    @ [OpenAiPost url]\<rparr>)"
    by (intro generateAltText_settles) auto
  then show "\<exists>altText.
       generateAltText gen url w =
         Some (altText,
               w\<lparr>openAiPosts := openAiPosts w + n + 1,
                  trace := trace w
                    @ concat (replicate n [OpenAiPost url, Sleep openAiRequestDelay])
                    @ [OpenAiPost url]\<rparr>) \<and>
       (\<forall>content cs. reply = Completed (Some (Some content # cs)) \<and> trim content \<noteq> []
                      \<longrightarrow> altText = trim content) \<and>
       (\<forall>code. reply = Failed code \<longrightarrow> altText = ''Error generating alt text'')"
    by (auto simp: first_completion_def)
next
  assume "\<forall>k. gen k url = Failed (Some ''rate_limit_exceeded'')"
  then show "generateAltText gen url w = None" by (rule generateAltText_forever)
next
  show "openAiRequestDelay = nat \<lceil>(60 / (openAiRateLimit / 880)) * 1000\<rceil>"
    by (rule openAiRequestDelay_def)
next
  show "openAiRequestDelay = 1760" by (rule openAiRequestDelay_eq)
qed

theorem generateAltText_rate_limit_witness:
  "generateAltText
     (\<lambda>k _. if k < 1 then Failed (Some ''rate_limit_exceeded'')
             else Completed (Some [Some (nbsp @ ''A red shoe. '')]))
     (Text ''https://cdn.example/shoe.jpg'') (start Absent) =
   Some (''A red shoe.'',
         (start Absent)\<lparr>openAiPosts := 2,
            trace := [OpenAiPost (Text ''https://cdn.example/shoe.jpg''), Sleep 1760,
                      OpenAiPost (Text ''https://cdn.example/shoe.jpg'')]\<rparr>) \<and>
   generateAltText (\<lambda>_ _. Failed (Some ''server_error''))
     (Text ''https://cdn.example/shoe.jpg'') (start Absent) =
   Some (''Error generating alt text'',
         (start Absent)\<lparr>openAiPosts := 1,
            trace := [OpenAiPost (Text ''https://cdn.example/shoe.jpg'')]\<rparr>) \<and>
   generateAltText (\<lambda>_ _. Failed (Some ''rate_limit_exceeded''))
     (Text ''https://cdn.example/shoe.jpg'') (start Absent) = None"
  using generateAltText_rate_limit
      [of 1 "\<lambda>k _. if k < 1 then Failed (Some ''rate_limit_exceeded'')
                      else Completed (Some [Some (nbsp @ ''A red shoe. '')])"
          "start Absent" "Text ''https://cdn.example/shoe.jpg''"
          "Completed (Some [Some (nbsp @ ''A red shoe. '')])", THEN conjunct1]
    generateAltText_rate_limit
      [of 0 "\<lambda>_ _. Failed (Some ''server_error'')"
          "start Absent" "Text ''https://cdn.example/shoe.jpg''" "Failed (Some ''server_error'')",
       THEN conjunct1]
    generateAltText_rate_limit
      [of 0 "\<lambda>_ _. Failed (Some ''rate_limit_exceeded'')"
          "start Absent" "Text ''https://cdn.example/shoe.jpg''" "Completed None",
       THEN conjunct2, THEN conjunct1]
  by (auto simp: start_def trim_examples openAiRequestDelay_eq)

text \<open>
  C10, as the code has it. A generation call whose request the API completes with a body
  that has a list of choices returns \<open>"Empty Alt Text"\<close> when the list is empty, or its
  first choice has no content, or its first content is blank (white space only, or
  nothing), and the first content trimmed when that is not blank; \<open>"Empty Alt Text"\<close> is
  not the string returned for a failed call.
\<close>

theorem generateAltText_empty:
  "((\<forall>i<n. gen (openAiPosts w + i) url = Failed (Some ''rate_limit_exceeded'')) \<and>
    gen (openAiPosts w + n) url = Completed (Some cs)
    \<longrightarrow> (\<exists>altText w'. generateAltText gen url w = Some (altText, w') \<and>
          (cs = [] \<or> hd cs = None \<or> (\<exists>content. hd cs = Some content \<and> trim content = [])
             \<longrightarrow> altText = ''Empty Alt Text'') \<and>
          (\<forall>content. cs \<noteq> [] \<and> hd cs = Some content \<and> trim content \<noteq> []
             \<longrightarrow> altText = trim content))) \<and>
   ''Empty Alt Text'' \<noteq> ''Error generating alt text''"
proof (intro conjI impI)
  assume h: "(\<forall>i<n. gen (openAiPosts w + i) url = Failed (Some ''rate_limit_exceeded'')) \<and>
    gen (openAiPosts w + n) url = Completed (Some cs)"
  have e: "first_completion cs = ''Empty Alt Text''"
    if "cs = [] \<or> hd cs = None \<or> (\<exists>content. hd cs = Some content \<and> trim content = [])"
    using that by (auto simp: first_completion_def split: list.splits option.splits)
  have t: "first_completion cs = trim content"
    if "cs \<noteq> [] \<and> hd cs = Some content \<and> trim content \<noteq> []" for content
    using that by (auto simp: first_completion_def split: list.splits option.splits)
  from h have "generateAltText gen url w =
         Some (case Completed (Some cs) of
                 Completed None \<Rightarrow> ''Error generating alt text''
               | Completed (Some cs) \<Rightarrow> first_completion cs
               | Failed code \<Rightarrow> ''Error generating alt text'',
               w\<lparr>openAiPosts := openAiPosts w + n + 1,
                  trace := trace w
                    @ concat (replicate n [OpenAiPost url, Sleep openAiRequestDelay])
                    @ [OpenAiPost url]\<rparr>)"
    by (intro generateAltText_settles) auto
  then have "generateAltText gen url w =
         Some (first_completion cs,
               w\<lparr>openAiPosts := openAiPosts w + n + 1,
                  trace := trace w
                    @ concat (replicate n [OpenAiPost url, Sleep openAiRequestDelay])
                    @ [OpenAiPost url]\<rparr>)"
    by simp
  with e t show "\<exists>altText w'. generateAltText gen url w = Some (altText, w') \<and>
          (cs = [] \<or> hd cs = None \<or> (\<exists>content. hd cs = Some content \<and> trim content = [])
             \<longrightarrow> altText = ''Empty Alt Text'') \<and>
          (\<forall>content. cs \<noteq> [] \<and> hd cs = Some content \<and> trim content \<noteq> []
             \<longrightarrow> altText = trim content)"
    by blast
next
  show "''Empty Alt Text'' \<noteq> ''Error generating alt text''" by simp
qed

theorem generateAltText_empty_witness:
  "(\<exists>w'. generateAltText (\<lambda>_ _. Completed (Some [Some (nbsp @ '' ''), Some ''a shoe'']))
           (Text ''https://cdn.example/shoe.jpg'') (start Absent) = Some (''Empty Alt Text'', w')) \<and>
   (\<exists>w'. generateAltText (\<lambda>_ _. Completed (Some []))
           (Text ''https://cdn.example/shoe.jpg'') (start Absent) = Some (''Empty Alt Text'', w')) \<and>
   (\<exists>w'. generateAltText (\<lambda>_ _. Completed (Some [None]))
           (Text ''https://cdn.example/shoe.jpg'') (start Absent) = Some (''Empty Alt Text'', w')) \<and>
   (\<exists>w'. generateAltText (\<lambda>_ _. Completed (Some [Some (nbsp @ ''A red shoe. '')]))
           (Text ''https://cdn.example/shoe.jpg'') (start Absent) = Some (''A red shoe.'', w'))"
  using generateAltText_empty
      [of 0 "\<lambda>_ _. Completed (Some [Some (nbsp @ '' ''), Some ''a shoe''])" "start Absent"
          "Text ''https://cdn.example/shoe.jpg''" "[Some (nbsp @ '' ''), Some ''a shoe'']"]
    generateAltText_empty
      [of 0 "\<lambda>_ _. Completed (Some [])" "start Absent"
          "Text ''https://cdn.example/shoe.jpg''" "[]"]
    generateAltText_empty
      [of 0 "\<lambda>_ _. Completed (Some [None])" "start Absent"
          "Text ''https://cdn.example/shoe.jpg''" "[None]"]
    generateAltText_empty
      [of 0 "\<lambda>_ _. Completed (Some [Some (nbsp @ ''A red shoe. '')])" "start Absent"
          "Text ''https://cdn.example/shoe.jpg''" "[Some (nbsp @ ''A red shoe. '')]"]
  by (simp add: trim_examples)

text \<open>
  C10 as it is stated fails where the API completes the request with a body that has no
  list of choices: there is no first completion, and reading it throws inside the \<open>try\<close>,
  so that \<open>unfinished\<close>, asked once, makes the call return the string of a failed call.
\<close>

theorem generateAltText_no_choices_counterexample:
  "unfinished 0 (Text shoe_url) = Completed None \<and>
   generateAltText unfinished (Text shoe_url) (start Absent) =
     Some (''Error generating alt text'', unfinished_result) \<and>
   ''Error generating alt text'' \<noteq> ''Empty Alt Text''"
proof -
  have "generateAltText unfinished (Text shoe_url) (start Absent) =
     Some (''Error generating alt text'', unfinished_result)"
    by (subst generateAltText.simps)
       (simp add: post_openai_def unfinished_def emit_def start_def unfinished_result_def)
  then show ?thesis by (simp add: unfinished_def)
qed

subsection \<open>The enrichment engine: rows, chunks and batches\<close>

lemma writes_append: "writes (es @ es') = writes es @ writes es'"
  by (induction es rule: writes.induct) simp_all

lemma chunk_waits_append: "chunk_waits (es @ es') = chunk_waits es + chunk_waits es'"
  by (simp add: chunk_waits_def)

lemma first_completion_not_empty: "first_completion cs \<noteq> []"
  by (simp add: first_completion_def split: list.splits option.splits)

lemma posts_append: "posts (es @ es') = posts es @ posts es'"
  by (induction es rule: posts.induct) simp_all

lemma persists_append: "persists (es @ es') = persists es @ persists es'"
  by (induction es rule: persists.induct) simp_all

lemma quiet_refl: "quiet w w"
  by (simp add: quiet_def)

lemma quiet_trans: "quiet w w1 \<Longrightarrow> quiet w1 w2 \<Longrightarrow> quiet w w2"
  by (simp add: quiet_def)

lemma quiet_emit:
  "writes [e] = [] \<Longrightarrow> posts [e] = [] \<Longrightarrow> persists [e] = [] \<Longrightarrow> \<not> is_chunk_wait e
   \<Longrightarrow> quiet w (emit e w)"
  by (simp add: quiet_def emit_def writes_append posts_append persists_append
        chunk_waits_append chunk_waits_def)

lemma quiet_post: "quiet w (snd (post_openai gen url w))"
  by (simp add: quiet_def post_openai_def emit_def writes_append posts_append persists_append
        chunk_waits_append chunk_waits_def)

lemma request_delay_not_chunk_delay: "openAiRequestDelay \<noteq> openAiChunkDelay"
  by (simp add: openAiRequestDelay_eq openAiChunkDelay_def)

lemma generateAltText_result:
  assumes "generateAltText gen url w = Some (altText, w')"
  shows "altText \<noteq> [] \<and> quiet w w'"
proof -
  have "fst y \<noteq> [] \<and> quiet w (snd y)" if "generateAltText gen url w = Some y" for y
  proof (rule generateAltText.raw_induct
      [where P = "\<lambda>_ _ w y. fst y \<noteq> [] \<and> quiet w (snd y)", OF _ that])
    fix f a u w0 y0
    assume IH: "\<And>u' w' b y'. f u' w' b = Some y' \<Longrightarrow> fst y' \<noteq> [] \<and> quiet b (snd y')"
      and eq: "(case post_openai a u w0 of
                  (Completed None, w1) \<Rightarrow> Some (''Error generating alt text'', w1)
                | (Completed (Some cs), w1) \<Rightarrow> Some (first_completion cs, w1)
                | (Failed code, w1) \<Rightarrow>
                    if code = Some ''rate_limit_exceeded''
                    then f a u (emit (Sleep openAiRequestDelay) w1)
                    else Some (''Error generating alt text'', w1)) = Some y0"
    obtain r w1 where p: "post_openai a u w0 = (r, w1)" by (cases "post_openai a u w0")
    then have q1: "quiet w0 w1" using quiet_post [of w0 a u] by simp
    show "fst y0 \<noteq> [] \<and> quiet w0 (snd y0)"
    proof (cases r)
      case (Completed choices)
      with eq p q1 show ?thesis
        by (cases choices) (auto simp: first_completion_not_empty)
    next
      case (Failed code)
      show ?thesis
      proof (cases "code = Some ''rate_limit_exceeded''")
        case True
        with eq p Failed have "f a u (emit (Sleep openAiRequestDelay) w1) = Some y0" by simp
        from IH [OF this] have "fst y0 \<noteq> []" and "quiet (emit (Sleep openAiRequestDelay) w1) (snd y0)"
          by simp_all
        moreover have "quiet w1 (emit (Sleep openAiRequestDelay) w1)"
          by (rule quiet_emit) (simp_all add: request_delay_not_chunk_delay)
        ultimately show ?thesis using q1 by (blast intro: quiet_trans)
      next
        case False
        with eq p Failed q1 show ?thesis by auto
      qed
    qed
  qed
  from this [OF assms] show ?thesis by simp
qed

lemma generateAltText_returns:
  assumes "answers gen"
  shows "\<exists>y. generateAltText gen url w = Some y"
proof -
  let ?P = "\<lambda>n. gen (openAiPosts w + n) url \<noteq> Failed (Some ''rate_limit_exceeded'')"
  from assms have ex: "\<exists>n. ?P n" by (simp add: answers_def)
  define n where "n = (LEAST n. ?P n)"
  have last: "?P n" unfolding n_def using ex by (rule LeastI_ex)
  have "\<forall>i<n. gen (openAiPosts w + i) url = Failed (Some ''rate_limit_exceeded'')"
    unfolding n_def using not_less_Least by blast
  from generateAltText_settles [of n gen w url, OF this refl last] show ?thesis by blast
qed


lemma quiet_warn: "quiet w (emit (Warn x) w)"
  by (rule quiet_emit) simp_all

lemma truthy_cell_object_of: "truthy_cell (object_of row column) = truthy (row column)"
  by (cases "row column") (simp_all add: object_of_def truthy_def)

lemma truthy_cell_Text: "truthy_cell (map_option Text v) = truthy v"
  by (cases v) (simp_all add: truthy_def)

lemma object_of_apply: "object_of row column = map_option Text (row column)"
  by (simp add: object_of_def)

lemma process_row_returns:
  assumes "answers gen"
  shows "\<exists>y. process_row gen i row w = Some y"
proof -
  let ?m = "matched_file (shopifyFiles w) (the (map_option trim (row ''File Name'')))"
  let ?row1 = "(object_of row)(''Updated Link'' := ?m)"
  from assms obtain altText w1
    where "generateAltText gen (the (?row1 ''Updated Link'')) w = Some (altText, w1)"
    using generateAltText_returns by fastforce
  then show ?thesis
    by (simp add: process_row_def Let_def)
qed

lemma process_row_result:
  assumes "process_row gen i row w = Some (row', w')"
  shows "written_for row (without_link row') \<and> quiet w w'"
proof -
  have same: "written_for row (without_link (object_of row))"
    by (simp add: written_for_def without_link_def object_of_def)
  have linked: "written_for row (without_link ((object_of row)(''Updated Link'' := v)))" for v
    by (simp add: written_for_def without_link_def object_of_def)
  have gen: "written_for row
      (without_link ((object_of row)(''Updated Link'' := v, ''Alt Text'' \<mapsto> Text t)))"
    if "\<not> truthy (row ''Alt Text'')" "t \<noteq> []" for v t
    using that by (simp add: written_for_def without_link_def object_of_def truthy_def)
  show ?thesis
  proof (cases "truthy (map_option trim (row ''File Name''))")
    case False
    with assms show ?thesis by (auto simp: process_row_def same quiet_warn)
  next
    case name: True
    let ?m = "matched_file (shopifyFiles w) (the (map_option trim (row ''File Name'')))"
    show ?thesis
    proof (cases "truthy_cell ?m")
      case False
      with assms name show ?thesis by (auto simp: process_row_def Let_def same quiet_warn)
    next
      case hit: True
      show ?thesis
      proof (cases "truthy (row ''Alt Text'')")
        case True
        with assms name hit show ?thesis
          by (auto simp: process_row_def Let_def linked quiet_refl truthy_cell_object_of)
      next
        case False
        with assms name hit obtain t where
          g: "generateAltText gen (the ?m) w = Some (t, w')"
          and r: "row' = (object_of row)(''Updated Link'' := ?m, ''Alt Text'' \<mapsto> Text t)"
          by (auto simp: process_row_def Let_def truthy_cell_object_of split: option.splits)
        from generateAltText_result [OF g] have "t \<noteq> []" "quiet w w'" by simp_all
        with gen [OF False] r show ?thesis by simp
      qed
    qed
  qed
qed

lemma process_rows_returns:
  assumes "answers gen"
  shows "\<exists>y. process_rows gen i rows w = Some y"
proof (induction rows arbitrary: w)
  case Nil
  show ?case by simp
next
  case (Cons row rows)
  from process_row_returns [OF assms] obtain row' w1
    where 1: "process_row gen i row w = Some (row', w1)" by fastforce
  from Cons.IH obtain y where "process_rows gen i rows w1 = Some y" by blast
  with 1 show ?case by (cases y) simp
qed

lemma process_rows_result:
  "process_rows gen i rows w = Some (rows', w') \<Longrightarrow>
   list_all2 (\<lambda>row row'. written_for row (without_link row')) rows rows' \<and> quiet w w'"
proof (induction rows arbitrary: w rows')
  case Nil
  then show ?case by (simp add: quiet_refl)
next
  case (Cons row rows)
  from Cons.prems obtain row1 w1 rest where
    1: "process_row gen i row w = Some (row1, w1)"
    and 2: "process_rows gen i rows w1 = Some (rest, w')"
    and 3: "rows' = row1 # rest"
    by (auto split: option.splits)
  from process_row_result [OF 1] Cons.IH [OF 2] 3 show ?case
    by (auto intro: quiet_trans)
qed


lemma slice_sizes_any:
  fixes c m :: nat
  assumes "0 < c" "0 < m"
  shows "replicate (m div c) c @ (if m mod c = 0 then [] else [m mod c]) =
         min c m # (replicate ((m - c) div c) c @ (if (m - c) mod c = 0 then [] else [(m - c) mod c]))"
proof (cases "m < c")
  case True
  then have "m div c = 0" "m mod c = m" "m - c = 0" "min c m = m" by simp_all
  with assms show ?thesis by simp
next
  case False
  then have ge: "c \<le> m" by simp
  from ge assms have d: "m div c = Suc ((m - c) div c)"
    by (simp add: le_div_geq)
  from ge have r: "m mod c = (m - c) mod c"
    by (simp add: le_mod_geq)
  from ge have mn: "min c m = c" by simp
  show ?thesis unfolding d r mn by simp
qed

lemma process_chunks_returns:
  assumes "answers gen"
  shows "\<exists>y. process_chunks gen rows i done w = Some y"
  using assms
proof (induction gen rows i "done" w rule: process_chunks.induct)
  case (1 gen rows i "done" w)
  show ?case
  proof (cases "i < length rows")
    case False
    then show ?thesis by (simp add: process_chunks.simps)
  next
    case True
    from process_rows_returns [OF "1.prems"] obtain chunk' w1 where
      c: "process_rows gen i (take openAiChunkSize (drop i rows)) w = Some (chunk', w1)"
      by fastforce
    from "1.IH" [OF True c refl "1.prems"] True c show ?thesis
      by (subst process_chunks.simps) simp
  qed
qed

lemma process_chunks_result:
  "process_chunks gen rows i done w = Some (chunks, w') \<Longrightarrow>
   \<exists>new. chunks = done @ new \<and>
     list_all2 (\<lambda>row row'. written_for row (without_link row')) (drop i rows) (concat new) \<and>
     map length new =
       replicate ((length rows - i) div openAiChunkSize) openAiChunkSize
         @ (if (length rows - i) mod openAiChunkSize = 0 then []
            else [(length rows - i) mod openAiChunkSize]) \<and>
     writes (trace w') = writes (trace w) \<and>
     chunk_waits (trace w') = chunk_waits (trace w) + length new \<and>
     shopifyFiles w' = shopifyFiles w"
proof (induction gen rows i "done" w rule: process_chunks.induct)
  case (1 gen rows i "done" w)
  let ?W = "\<lambda>row row'. written_for row (without_link row')"
  show ?case
  proof (cases "i < length rows")
    case False
    with "1.prems" show ?thesis by (simp add: process_chunks.simps [of gen rows i])
  next
    case True
    let ?chunk = "take openAiChunkSize (drop i rows)"
    from "1.prems" True obtain chunk' w1 where
      c: "process_rows gen i ?chunk w = Some (chunk', w1)"
      and rest: "process_chunks gen rows (i + openAiChunkSize) (done @ [chunk'])
                   (emit (Sleep openAiChunkDelay) w1) = Some (chunks, w')"
      by (subst (asm) process_chunks.simps) (auto split: option.splits)
    from process_rows_result [OF c] have rel: "list_all2 ?W ?chunk chunk'" and q: "quiet w w1"
      by simp_all
    from "1.IH" [OF True c refl rest] obtain new' where
      n1: "chunks = (done @ [chunk']) @ new'"
      and n2: "list_all2 ?W (drop (i + openAiChunkSize) rows) (concat new')"
      and n3: "map length new' =
         replicate ((length rows - (i + openAiChunkSize)) div openAiChunkSize) openAiChunkSize
           @ (if (length rows - (i + openAiChunkSize)) mod openAiChunkSize = 0 then []
              else [(length rows - (i + openAiChunkSize)) mod openAiChunkSize])"
      and n4: "writes (trace w') = writes (trace (emit (Sleep openAiChunkDelay) w1))"
      and n5: "chunk_waits (trace w') =
                 chunk_waits (trace (emit (Sleep openAiChunkDelay) w1)) + length new'"
      and n6: "shopifyFiles w' = shopifyFiles (emit (Sleep openAiChunkDelay) w1)"
      by blast
    have "drop i rows = ?chunk @ drop openAiChunkSize (drop i rows)"
      by (simp only: append_take_drop_id)
    moreover have "drop openAiChunkSize (drop i rows) = drop (i + openAiChunkSize) rows"
      by (simp add: add.commute)
    ultimately have split: "drop i rows = ?chunk @ drop (i + openAiChunkSize) rows"
      by (simp only:)
    have "list_all2 ?W (drop i rows) (concat (chunk' # new'))"
      unfolding concat.simps by (subst split) (rule list_all2_appendI [OF rel n2])
    moreover have "length chunk' = min openAiChunkSize (length rows - i)"
      using list_all2_lengthD [OF rel] by (simp add: min.commute)
    with n3 True have "map length (chunk' # new') =
       replicate ((length rows - i) div openAiChunkSize) openAiChunkSize
         @ (if (length rows - i) mod openAiChunkSize = 0 then []
            else [(length rows - i) mod openAiChunkSize])"
      using slice_sizes_any [of openAiChunkSize "length rows - i"]
      by (simp add: openAiChunkSize_def)
    moreover from n4 q have "writes (trace w') = writes (trace w)"
      by (simp add: emit_def writes_append quiet_def)
    moreover from n5 q have "chunk_waits (trace w') = chunk_waits (trace w) + length (chunk' # new')"
      by (simp add: emit_def chunk_waits_append quiet_def chunk_waits_def)
    moreover from n6 q have "shopifyFiles w' = shopifyFiles w"
      by (simp add: emit_def quiet_def)
    ultimately show ?thesis using n1 by (intro exI [of _ "chunk' # new'"]) simp
  qed
qed

lemma processBatch_returns:
  assumes "answers gen"
  shows "\<exists>w'. processBatch gen rows w = Some w'"
proof -
  from process_chunks_returns [OF assms] obtain y
    where "process_chunks gen rows 0 [] w = Some y" by blast
  then show ?thesis by (cases y) (simp add: processBatch_def)
qed

lemma processBatch_result:
  assumes "processBatch gen rows w = Some w'"
  shows "\<exists>out. writes (trace w') = writes (trace w) @ [out] \<and>
           list_all2 written_for rows out \<and>
           chunk_waits (trace w') =
             chunk_waits (trace w) + length rows div openAiChunkSize
               + (if length rows mod openAiChunkSize = 0 then 0 else 1) \<and>
           shopifyFiles w' = shopifyFiles w"
proof -
  from assms obtain chunks w1 where
    c: "process_chunks gen rows 0 [] w = Some (chunks, w1)"
    and w': "w' = emit (WriteRecords (map without_link (concat chunks))) w1"
    by (auto simp: processBatch_def split: option.splits)
  from process_chunks_result [OF c] obtain new where
    new: "chunks = [] @ new"
    and rel': "list_all2 (\<lambda>row row'. written_for row (without_link row')) (drop 0 rows) (concat new)"
    and sizes': "map length new =
       replicate ((length rows - 0) div openAiChunkSize) openAiChunkSize
         @ (if (length rows - 0) mod openAiChunkSize = 0 then []
            else [(length rows - 0) mod openAiChunkSize])"
    and wr: "writes (trace w1) = writes (trace w)"
    and cw': "chunk_waits (trace w1) = chunk_waits (trace w) + length new"
    and sf: "shopifyFiles w1 = shopifyFiles w"
    by blast
  from new have eq: "new = chunks" by simp
  from rel' have rel: "list_all2 (\<lambda>row row'. written_for row (without_link row')) rows (concat chunks)"
    by (simp add: eq)
  from sizes' have "length (map length chunks) =
      length rows div openAiChunkSize + (if length rows mod openAiChunkSize = 0 then 0 else 1)"
    by (simp add: eq)
  then have n: "length chunks =
      length rows div openAiChunkSize + (if length rows mod openAiChunkSize = 0 then 0 else 1)"
    by (simp only: length_map)
  have out: "list_all2 written_for rows (map without_link (concat chunks))"
    using rel by (simp add: list_all2_map2)
  have 1: "writes (trace w') = writes (trace w) @ [map without_link (concat chunks)]"
    unfolding w' by (simp add: emit_def writes_append wr)
  have 2: "chunk_waits (trace w') = chunk_waits (trace w) + length chunks"
    unfolding w' using cw' by (simp add: emit_def chunk_waits_append eq) (simp add: chunk_waits_def)
  have 3: "shopifyFiles w' = shopifyFiles w"
    unfolding w' by (simp add: emit_def sf)
  from out 1 2 3 show ?thesis
    unfolding n by (intro exI [of _ "map without_link (concat chunks)"]) simp
qed

subsection \<open>Resolution, idempotence and the written batches\<close>

lemma strip_suffix_product: "strip_suffix (name @ ''_product'') = name"
  by (simp add: strip_suffix_def ends_with_def)

lemma strip_suffix_collection: "strip_suffix (name @ ''_collection'') = name"
  by (simp add: strip_suffix_def ends_with_def)

text \<open>
  When the lookup of the trimmed file name gives nothing truthy, the lookup of the name
  without one trailing \<open>_product\<close> or \<open>_collection\<close> decides: if it gives nothing truthy
  either, the row comes back as it was, with a warning, and nothing is asked of the
  generation API; otherwise the row is resolved to what it gives. Only one suffix is ever
  removed, whatever the rest of the name ends with.
\<close>

lemma process_row_second_lookup:
  assumes "map_option trim (row ''File Name'') = Some fileName"
    and "fileName \<noteq> []"
    and "\<not> truthy_cell (lookup (shopifyFiles w) fileName)"
  shows "matched_file (shopifyFiles w) fileName = lookup (shopifyFiles w) (strip_suffix fileName) \<and>
    (\<not> truthy_cell (lookup (shopifyFiles w) (strip_suffix fileName)) \<longrightarrow>
       process_row gen i row w = Some (object_of row, emit (Warn (NoMatch (i + 1) fileName)) w)) \<and>
    (\<forall>v. lookup (shopifyFiles w) (strip_suffix fileName) = Some v \<and> truthy_cell (Some v) \<longrightarrow>
       process_row gen i row w =
         (if truthy (row ''Alt Text'') then Some ((object_of row)(''Updated Link'' \<mapsto> v), w)
          else map_option
                 (\<lambda>(altText, w1).
                    ((object_of row)(''Updated Link'' \<mapsto> v, ''Alt Text'' \<mapsto> Text altText), w1))
                 (generateAltText gen v w))) \<and>
    strip_suffix (name @ ''_product'') = name \<and>
    strip_suffix (name @ ''_collection'') = name \<and>
    (\<not> ends_with ''_product'' fileName \<and> \<not> ends_with ''_collection'' fileName
       \<longrightarrow> strip_suffix fileName = fileName) \<and>
    strip_suffix ''shoe.jpg_product'' = ''shoe.jpg''"
proof -
  let ?second = "lookup (shopifyFiles w) (strip_suffix fileName)"
  have m: "matched_file (shopifyFiles w) fileName = ?second"
    using assms(3) by (simp add: matched_file_def)
  have pr: "process_row gen i row w =
      (if \<not> truthy_cell ?second
       then Some (object_of row, emit (Warn (NoMatch (i + 1) fileName)) w)
       else if \<not> truthy (row ''Alt Text'')
         then (case generateAltText gen (the ?second) w of
                 None \<Rightarrow> None
               | Some (altText, w1) \<Rightarrow>
                   Some ((object_of row)(''Updated Link'' := ?second,
                                         ''Alt Text'' \<mapsto> Text altText), w1))
         else Some ((object_of row)(''Updated Link'' := ?second), w))"
    by (simp add: process_row_def assms(1) assms(2) m truthy_def Let_def truthy_cell_object_of)
  have miss: "process_row gen i row w = Some (object_of row, emit (Warn (NoMatch (i + 1) fileName)) w)"
    if "\<not> truthy_cell ?second"
    using that by (simp add: pr)
  have hit: "process_row gen i row w =
         (if truthy (row ''Alt Text'') then Some ((object_of row)(''Updated Link'' \<mapsto> v), w)
          else map_option
                 (\<lambda>(altText, w1).
                    ((object_of row)(''Updated Link'' \<mapsto> v, ''Alt Text'' \<mapsto> Text altText), w1))
                 (generateAltText gen v w))"
    if "?second = Some v" "truthy_cell (Some v)" for v
    using that by (auto simp: pr split: option.splits)
  have s: "strip_suffix ''shoe.jpg_product'' = ''shoe.jpg''"
    by (simp add: strip_suffix_def ends_with_def)
  from m miss hit s show ?thesis
    by (simp add: strip_suffix_product strip_suffix_collection) (simp add: strip_suffix_def)
qed

lemma answers_describes: "answers describes"
  by (simp add: answers_def describes_def)

lemma describes_once:
  "generateAltText describes v indexed =
   Some (''A red shoe'', indexed\<lparr>openAiPosts := 1, trace := [OpenAiPost v]\<rparr>)"
  using generateAltText_settles [of 0 describes indexed v "describes 0 v"]
  by (simp add: describes_def first_completion_def trim_examples indexed_def start_def)

text \<open>
  A file name padded with a no-break space and a space, with the suffix of a product, is
  found under the name of the content image; a name that still has a suffix after one is
  taken off is not found.
\<close>

lemma process_row_second_lookup_examples:
  "process_row describes 0 shoe_row indexed =
     Some ((object_of shoe_row)(''Updated Link'' \<mapsto> Text shoe_url,
                                ''Alt Text'' \<mapsto> Text ''A red shoe''),
           indexed\<lparr>openAiPosts := 1, trace := [OpenAiPost (Text shoe_url)]\<rparr>) \<and>
   process_row describes 0 hat_row indexed =
     Some (object_of hat_row, emit (Warn (NoMatch 1 ''hat.jpg_product_collection'')) indexed)"
proof -
  have t1: "map_option trim (shoe_row ''File Name'') = Some ''shoe.jpg_product''"
    by (simp add: shoe_row_def trim_examples)
  have t2: "map_option trim (hat_row ''File Name'') = Some ''hat.jpg_product_collection''"
    by (simp add: hat_row_def trim_examples)
  have s1: "strip_suffix ''shoe.jpg_product'' = ''shoe.jpg''"
    by (simp add: strip_suffix_def ends_with_def)
  have s2: "strip_suffix ''hat.jpg_product_collection'' = ''hat.jpg_product''"
    by (simp add: strip_suffix_def ends_with_def)
  have n1: "\<not> truthy_cell (lookup (shopifyFiles indexed) ''shoe.jpg_product'')"
    and n2: "\<not> truthy_cell (lookup (shopifyFiles indexed) ''hat.jpg_product_collection'')"
    and n3: "\<not> truthy_cell (lookup (shopifyFiles indexed) ''hat.jpg_product'')"
    and h1: "lookup (shopifyFiles indexed) ''shoe.jpg'' = Some (Text shoe_url)"
      "truthy_cell (Some (Text shoe_url))"
    and a1: "\<not> truthy (shoe_row ''Alt Text'')"
    by (simp_all add: indexed_def start_def truthy_def shoe_url_def shoe_row_def lookup_def
          object_prototype_def)
  from process_row_second_lookup
    [where row = shoe_row and fileName = "''shoe.jpg_product''" and w = indexed
       and gen = describes and i = 0 and name = "[]"] t1 n1 h1 a1
  have "process_row describes 0 shoe_row indexed =
     Some ((object_of shoe_row)(''Updated Link'' \<mapsto> Text shoe_url,
                                ''Alt Text'' \<mapsto> Text ''A red shoe''),
           indexed\<lparr>openAiPosts := 1, trace := [OpenAiPost (Text shoe_url)]\<rparr>)"
    by (simp add: s1 describes_once)
  moreover from process_row_second_lookup
    [where row = hat_row and fileName = "''hat.jpg_product_collection''" and w = indexed
       and gen = describes and i = 0 and name = "[]"] t2 n2 n3
  have "process_row describes 0 hat_row indexed =
     Some (object_of hat_row, emit (Warn (NoMatch 1 ''hat.jpg_product_collection'')) indexed)"
    by (simp add: s2)
  ultimately show ?thesis by simp
qed

text \<open>
  C6, where the code departs from it. The index is a plain object, and a lookup in it
  also finds what every object inherits. In an index whose only key is \<open>shoe.jpg\<close>, the
  row whose file name is \<open>toString\<close> is not skipped: the first lookup gives the method of
  that name, which becomes the row's \<open>Updated Link\<close>, and the generation API is asked
  about it and its answer written to \<open>Alt Text\<close>. The row whose file name is
  \<open>constructor_product\<close> misses at first, and is resolved the same way by the lookup of
  \<open>constructor\<close>. Neither is skipped with a warning, and neither is left without alt
  text.
\<close>

theorem process_row_inherited_property:
  "shopifyFiles indexed ''toString'' = None \<and>
   process_row describes 0 method_row indexed =
     Some ((object_of method_row)(''Updated Link'' \<mapsto> Inherited ''toString'',
                                  ''Alt Text'' \<mapsto> Text ''A red shoe''),
           indexed\<lparr>openAiPosts := 1, trace := [OpenAiPost (Inherited ''toString'')]\<rparr>) \<and>
   shopifyFiles indexed ''constructor_product'' = None \<and>
   shopifyFiles indexed ''constructor'' = None \<and>
   process_row describes 0 method_product_row indexed =
     Some ((object_of method_product_row)(''Updated Link'' \<mapsto> Inherited ''constructor'',
                                          ''Alt Text'' \<mapsto> Text ''A red shoe''),
           indexed\<lparr>openAiPosts := 1, trace := [OpenAiPost (Inherited ''constructor'')]\<rparr>)"
proof -
  have own: "shopifyFiles indexed ''toString'' = None"
    "shopifyFiles indexed ''constructor_product'' = None"
    "shopifyFiles indexed ''constructor'' = None"
    by (simp_all add: indexed_def start_def)
  have l1: "lookup (shopifyFiles indexed) ''toString'' = Some (Inherited ''toString'')"
    and l2: "lookup (shopifyFiles indexed) ''constructor_product'' = None"
    and l3: "lookup (shopifyFiles indexed) ''constructor'' = Some (Inherited ''constructor'')"
    by (simp_all add: lookup_def own object_prototype_def)
  have s: "strip_suffix ''constructor_product'' = ''constructor''"
    by (simp add: strip_suffix_def ends_with_def)
  have m1: "matched_file (shopifyFiles indexed) ''toString'' = Some (Inherited ''toString'')"
    by (simp add: matched_file_def l1)
  have m2: "matched_file (shopifyFiles indexed) ''constructor_product'' =
              Some (Inherited ''constructor'')"
    by (simp add: matched_file_def l2 l3 s)
  have r1: "process_row describes 0 method_row indexed =
     Some ((object_of method_row)(''Updated Link'' \<mapsto> Inherited ''toString'',
                                  ''Alt Text'' \<mapsto> Text ''A red shoe''),
           indexed\<lparr>openAiPosts := 1, trace := [OpenAiPost (Inherited ''toString'')]\<rparr>)"
    by (simp add: process_row_def method_row_def trim_examples truthy_def m1 object_of_def
          describes_once)
  have r2: "process_row describes 0 method_product_row indexed =
     Some ((object_of method_product_row)(''Updated Link'' \<mapsto> Inherited ''constructor'',
                                          ''Alt Text'' \<mapsto> Text ''A red shoe''),
           indexed\<lparr>openAiPosts := 1, trace := [OpenAiPost (Inherited ''constructor'')]\<rparr>)"
    by (simp add: process_row_def method_product_row_def trim_examples truthy_def m2 object_of_def
          describes_once)
  from own r1 r2 show ?thesis by simp
qed

text \<open>
  C4. A row whose \<open>Alt Text\<close> is not empty when it is processed comes back with the same
  \<open>Alt Text\<close>, and no request is posted to the generation API for it, whatever that API
  would have answered; in the batch that is written, every such row has the alt text it
  came with.
\<close>

theorem process_row_keeps_alt_text:
  "(truthy (row ''Alt Text'') \<longrightarrow>
      (\<exists>row' w'. process_row gen i row w = Some (row', w') \<and>
         row' ''Alt Text'' = map_option Text (row ''Alt Text'') \<and>
         openAiPosts w' = openAiPosts w \<and>
         (trace w' = trace w \<or> (\<exists>x. trace w' = trace w @ [Warn x])))) \<and>
   (\<forall>w' out. processBatch gen rows w = Some w' \<and> writes (trace w') = writes (trace w) @ [out]
      \<longrightarrow> (\<forall>j<length rows. truthy ((rows ! j) ''Alt Text'')
             \<longrightarrow> (out ! j) ''Alt Text'' = map_option Text ((rows ! j) ''Alt Text'')))"
proof (intro conjI impI allI)
  assume "truthy (row ''Alt Text'')"
  then show "\<exists>row' w'. process_row gen i row w = Some (row', w') \<and>
         row' ''Alt Text'' = map_option Text (row ''Alt Text'') \<and>
         openAiPosts w' = openAiPosts w \<and>
         (trace w' = trace w \<or> (\<exists>x. trace w' = trace w @ [Warn x]))"
    by (simp add: process_row_def Let_def emit_def object_of_apply truthy_cell_Text)
next
  fix w' out j
  assume b: "processBatch gen rows w = Some w' \<and> writes (trace w') = writes (trace w) @ [out]"
    and j: "j < length rows" and t: "truthy ((rows ! j) ''Alt Text'')"
  from processBatch_result [of gen rows w w'] b obtain out'
    where "writes (trace w') = writes (trace w) @ [out']" and rel: "list_all2 written_for rows out'"
    by blast
  with b have "out' = out" by simp
  with rel j have "written_for (rows ! j) (out ! j)" by (simp add: list_all2_nthD)
  with t show "(out ! j) ''Alt Text'' = map_option Text ((rows ! j) ''Alt Text'')"
    by (auto simp: written_for_def)
qed

theorem process_row_keeps_alt_text_witness:
  "(\<exists>row' w'. process_row (\<lambda>_ _. Failed (Some ''rate_limit_exceeded'')) 0 described_row indexed
       = Some (row', w') \<and>
      row' ''Alt Text'' = Some (Text ''An old text'') \<and> openAiPosts w' = 0 \<and>
      (trace w' = [] \<or> (\<exists>x. trace w' = [Warn x])))"
  using process_row_keeps_alt_text
    [of described_row "\<lambda>_ _. Failed (Some ''rate_limit_exceeded'')" 0 indexed "[]"]
  by (simp add: described_row_def truthy_def indexed_def start_def)

text \<open>
  C9. A batch is handed to the writer whenever the generation API does not rate-limit a
  call forever; and whenever a batch is handed over, it is handed over once, with as many
  rows as came in and in the same order, each without \<open>Updated Link\<close>, with the values it
  came with in every other column but \<open>Alt Text\<close>, and in \<open>Alt Text\<close> either the value
  it came with or, where it had none, a text that is not empty.
\<close>

theorem processBatch_writes_every_row:
  "(answers gen \<longrightarrow> (\<exists>w'. processBatch gen rows w = Some w')) \<and>
   (\<forall>w'. processBatch gen rows w = Some w' \<longrightarrow>
      (\<exists>out. writes (trace w') = writes (trace w) @ [out] \<and>
         length out = length rows \<and>
         (\<forall>j<length rows. written_for (rows ! j) (out ! j))))"
proof (intro conjI impI allI)
  assume "answers gen"
  then show "\<exists>w'. processBatch gen rows w = Some w'" by (rule processBatch_returns)
next
  fix w'
  assume "processBatch gen rows w = Some w'"
  from processBatch_result [OF this] obtain out
    where 1: "writes (trace w') = writes (trace w) @ [out]" and 2: "list_all2 written_for rows out"
    by blast
  from 2 have "length out = length rows" by (simp add: list_all2_lengthD)
  moreover from 2 have "\<forall>j<length rows. written_for (rows ! j) (out ! j)"
    by (simp add: list_all2_nthD)
  ultimately show "\<exists>out. writes (trace w') = writes (trace w) @ [out] \<and>
         length out = length rows \<and> (\<forall>j<length rows. written_for (rows ! j) (out ! j))"
    using 1 by blast
qed

theorem processBatch_writes_every_row_witness:
  "\<exists>w'. processBatch describes [shoe_row, hat_row, described_row] indexed = Some w' \<and>
     (\<exists>out. writes (trace w') = [out] \<and> length out = 3 \<and>
        (\<forall>j<3. written_for ([shoe_row, hat_row, described_row] ! j) (out ! j)))"
proof -
  from processBatch_writes_every_row [of describes "[shoe_row, hat_row, described_row]" indexed]
    answers_describes
  obtain w' where 1: "processBatch describes [shoe_row, hat_row, described_row] indexed = Some w'"
    by blast
  have "writes (trace indexed) = []" by (simp add: indexed_def start_def)
  with processBatch_writes_every_row [of describes "[shoe_row, hat_row, described_row]" indexed] 1
  show ?thesis by (simp add: numeral_3_eq_3)
qed

lemma processBatch_chunks:
  assumes "answers gen"
  shows "\<exists>chunks w1.
     process_chunks gen rows 0 [] w = Some (chunks, w1) \<and>
     processBatch gen rows w = Some (emit (WriteRecords (map without_link (concat chunks))) w1) \<and>
     map length chunks =
       replicate (length rows div openAiChunkSize) openAiChunkSize
         @ (if length rows mod openAiChunkSize = 0 then [] else [length rows mod openAiChunkSize]) \<and>
     list_all2 written_for rows (map without_link (concat chunks)) \<and>
     writes (trace (emit (WriteRecords (map without_link (concat chunks))) w1)) =
       writes (trace w) @ [map without_link (concat chunks)] \<and>
     chunk_waits (trace (emit (WriteRecords (map without_link (concat chunks))) w1)) =
       chunk_waits (trace w) + length chunks"
proof -
  from process_chunks_returns [OF assms] obtain y
    where "process_chunks gen rows 0 [] w = Some y" by blast
  then obtain chunks w1 where c: "process_chunks gen rows 0 [] w = Some (chunks, w1)"
    by (cases y) simp
  from process_chunks_result [OF c] obtain new where
    new: "chunks = [] @ new"
    and rel': "list_all2 (\<lambda>row row'. written_for row (without_link row')) (drop 0 rows) (concat new)"
    and sizes': "map length new =
       replicate ((length rows - 0) div openAiChunkSize) openAiChunkSize
         @ (if (length rows - 0) mod openAiChunkSize = 0 then []
            else [(length rows - 0) mod openAiChunkSize])"
    and wr: "writes (trace w1) = writes (trace w)"
    and cw': "chunk_waits (trace w1) = chunk_waits (trace w) + length new"
    by blast
  from new have eq: "new = chunks" by simp
  have 1: "processBatch gen rows w = Some (emit (WriteRecords (map without_link (concat chunks))) w1)"
    by (simp add: processBatch_def c)
  have 2: "map length chunks =
       replicate (length rows div openAiChunkSize) openAiChunkSize
         @ (if length rows mod openAiChunkSize = 0 then [] else [length rows mod openAiChunkSize])"
    using sizes' by (simp add: eq)
  have 3: "list_all2 written_for rows (map without_link (concat chunks))"
    using rel' by (simp add: eq list_all2_map2)
  have 4: "writes (trace (emit (WriteRecords (map without_link (concat chunks))) w1)) =
       writes (trace w) @ [map without_link (concat chunks)]"
    by (simp add: emit_def writes_append wr)
  have 5: "chunk_waits (trace (emit (WriteRecords (map without_link (concat chunks))) w1)) =
       chunk_waits (trace w) + length chunks"
    using cw' by (simp add: emit_def chunk_waits_append eq) (simp add: chunk_waits_def)
  from c 1 2 3 4 5 show ?thesis by blast
qed

text \<open>
  C3. With 1237 input rows and a generation API that does not rate-limit a call forever,
  \<open>processCsv\<close> returns after three batches: rows 1 to 500, 501 to 1000 and 1001 to 1237.
  Each is processed in chunks of 30 rows, with a last chunk of 20 rows for the first two
  batches and of 27 rows for the third (17, 17 and 8 chunks, 42 waits between chunks), and
  then written: the writer is called three times, with 500, 500 and 237 rows, each written
  row standing for the input row at its place.
\<close>

theorem processCsv_batches:
  assumes "length input = 1237" and "answers gen"
  shows "\<exists>c1 w1 c2 w2 c3 w3 w'.
     process_chunks gen (take 500 input) 0 [] w = Some (c1, w1) \<and>
     map length c1 = replicate 16 30 @ [20] \<and>
     process_chunks gen (take 500 (drop 500 input)) 0 []
       (emit (WriteRecords (map without_link (concat c1))) w1) = Some (c2, w2) \<and>
     map length c2 = replicate 16 30 @ [20] \<and>
     process_chunks gen (drop 1000 input) 0 []
       (emit (WriteRecords (map without_link (concat c2))) w2) = Some (c3, w3) \<and>
     map length c3 = replicate 7 30 @ [27] \<and>
     w' = emit (WriteRecords (map without_link (concat c3))) w3 \<and>
     processCsv gen input w = Some w' \<and>
     writes (trace w') =
       writes (trace w) @ [map without_link (concat c1), map without_link (concat c2),
                           map without_link (concat c3)] \<and>
     map length (writes (trace w')) = map length (writes (trace w)) @ [500, 500, 237] \<and>
     list_all2 written_for (take 500 input) (map without_link (concat c1)) \<and>
     list_all2 written_for (take 500 (drop 500 input)) (map without_link (concat c2)) \<and>
     list_all2 written_for (drop 1000 input) (map without_link (concat c3)) \<and>
     chunk_waits (trace w') = chunk_waits (trace w) + 42"
proof -
  let ?b1 = "take 500 input" and ?b2 = "take 500 (drop 500 input)" and ?b3 = "drop 1000 input"
  have l1: "length ?b1 = 500" and l2: "length ?b2 = 500" and l3: "length ?b3 = 237"
    using assms(1) by simp_all
  have d1: "(500::nat) div openAiChunkSize = 16" "(500::nat) mod openAiChunkSize = 20"
    and d3: "(237::nat) div openAiChunkSize = 7" "(237::nat) mod openAiChunkSize = 27"
    by (simp_all add: openAiChunkSize_def)
  from processBatch_chunks [OF assms(2), of ?b1 w] obtain c1 w1 where
    a1: "process_chunks gen ?b1 0 [] w = Some (c1, w1)"
    and a2: "processBatch gen ?b1 w = Some (emit (WriteRecords (map without_link (concat c1))) w1)"
    and a3: "map length c1 = replicate 16 openAiChunkSize @ [20]"
    and a4: "list_all2 written_for ?b1 (map without_link (concat c1))"
    and a5: "writes (trace (emit (WriteRecords (map without_link (concat c1))) w1)) =
               writes (trace w) @ [map without_link (concat c1)]"
    and a6: "chunk_waits (trace (emit (WriteRecords (map without_link (concat c1))) w1)) =
               chunk_waits (trace w) + length c1"
    unfolding l1 d1 by auto
  let ?wa = "emit (WriteRecords (map without_link (concat c1))) w1"
  from processBatch_chunks [OF assms(2), of ?b2 ?wa] obtain c2 w2 where
    b1: "process_chunks gen ?b2 0 [] ?wa = Some (c2, w2)"
    and b2: "processBatch gen ?b2 ?wa = Some (emit (WriteRecords (map without_link (concat c2))) w2)"
    and b3: "map length c2 = replicate 16 openAiChunkSize @ [20]"
    and b4: "list_all2 written_for ?b2 (map without_link (concat c2))"
    and b5: "writes (trace (emit (WriteRecords (map without_link (concat c2))) w2)) =
               writes (trace ?wa) @ [map without_link (concat c2)]"
    and b6: "chunk_waits (trace (emit (WriteRecords (map without_link (concat c2))) w2)) =
               chunk_waits (trace ?wa) + length c2"
    unfolding l2 d1 by auto
  let ?wb = "emit (WriteRecords (map without_link (concat c2))) w2"
  from processBatch_chunks [OF assms(2), of ?b3 ?wb] obtain c3 w3 where
    c1: "process_chunks gen ?b3 0 [] ?wb = Some (c3, w3)"
    and c2: "processBatch gen ?b3 ?wb = Some (emit (WriteRecords (map without_link (concat c3))) w3)"
    and c3: "map length c3 = replicate 7 openAiChunkSize @ [27]"
    and c4: "list_all2 written_for ?b3 (map without_link (concat c3))"
    and c5: "writes (trace (emit (WriteRecords (map without_link (concat c3))) w3)) =
               writes (trace ?wb) @ [map without_link (concat c3)]"
    and c6: "chunk_waits (trace (emit (WriteRecords (map without_link (concat c3))) w3)) =
               chunk_waits (trace ?wb) + length c3"
    unfolding l3 d3 by auto
  let ?wc = "emit (WriteRecords (map without_link (concat c3))) w3"
  have s3: "process_batches gen input 1500 ?wc = Some ?wc"
    using assms(1) by (subst process_batches.simps) simp
  have s2: "process_batches gen input 1000 ?wb = Some ?wc"
    using assms(1) c2 s3 by (subst process_batches.simps) (simp add: batchSize_def)
  have s1: "process_batches gen input 500 ?wa = Some ?wc"
    using assms(1) b2 s2 by (subst process_batches.simps) (simp add: batchSize_def)
  have s0: "process_batches gen input 0 w = Some ?wc"
    using assms(1) a2 s1 by (subst process_batches.simps) (simp add: batchSize_def)
  have run: "processCsv gen input w = Some ?wc"
    by (simp add: processCsv_def s0)
  have n1: "length c1 = 17" and n2: "length c2 = 17" and n3: "length c3 = 8"
    using arg_cong [OF a3, of length] arg_cong [OF b3, of length] arg_cong [OF c3, of length]
    by simp_all
  have wr: "writes (trace ?wc) =
       writes (trace w) @ [map without_link (concat c1), map without_link (concat c2),
                           map without_link (concat c3)]"
    by (simp only: c5 b5 a5 append_assoc append.simps)
  have lens: "map length (writes (trace ?wc)) = map length (writes (trace w)) @ [500, 500, 237]"
    unfolding wr
    using list_all2_lengthD [OF a4] list_all2_lengthD [OF b4] list_all2_lengthD [OF c4] l1 l2 l3
    by simp
  have cw: "chunk_waits (trace ?wc) = chunk_waits (trace w) + 42"
    by (simp add: c6 b6 a6 n1 n2 n3)
  from a1 a3 b1 b3 c1 c3 run wr lens a4 b4 c4 cw show ?thesis
    unfolding openAiChunkSize_def by blast
qed

theorem processCsv_batches_witness:
  "\<exists>w'. processCsv describes (replicate 1237 shoe_row) indexed = Some w' \<and>
     map length (writes (trace w')) = [500, 500, 237] \<and>
     chunk_waits (trace w') = 42"
proof -
  have "writes (trace indexed) = []" "chunk_waits (trace indexed) = 0"
    by (simp_all add: indexed_def start_def chunk_waits_def)
  with processCsv_batches [of "replicate 1237 shoe_row" describes indexed] answers_describes
  show ?thesis by auto
qed

subsection \<open>The index builder: what a sweep stores and asks\<close>

lemma put_all_append: "put_all files (xs @ ys) = put_all (put_all files xs) ys"
  by (simp add: put_all_def)

lemma put_all_Nil: "put_all files [] = files"
  by (simp add: put_all_def)

lemma put_all_snoc:
  "put_all files (entries @ [(key, url)]) = assign (put_all files entries) key url"
  by (simp add: put_all_def)

lemma assign_other: "k \<noteq> key \<Longrightarrow> assign files k url key = files key"
  by (simp add: assign_def)

lemma assign_same: "key \<noteq> ''__proto__'' \<Longrightarrow> assign files key url key = Some url"
  by (simp add: assign_def)

lemma dom_assign:
  "dom (assign files k url) =
     (if k = ''__proto__'' \<and> ''__proto__'' \<notin> dom files then dom files else insert k (dom files))"
  by (auto simp: assign_def)

lemma put_all_other: "key \<notin> fst ` set entries \<Longrightarrow> put_all files entries key = files key"
proof (induction entries rule: rev_induct)
  case Nil
  show ?case by (simp add: put_all_Nil)
next
  case (snoc x entries)
  obtain k v where x: "x = (k, v)" by (cases x)
  from snoc.prems x have "k \<noteq> key" and "key \<notin> fst ` set entries" by auto
  with snoc.IH x show ?case by (simp add: put_all_snoc assign_other)
qed

text \<open>The last entry of a key is the one that stays, unless the key is \<open>__proto__\<close>.\<close>

lemma put_all_last:
  assumes "i < length entries" and "fst (entries ! i) \<noteq> ''__proto__''"
    and "\<forall>j<length entries. i < j \<longrightarrow> fst (entries ! j) \<noteq> fst (entries ! i)"
  shows "put_all files entries (fst (entries ! i)) = Some (snd (entries ! i))"
proof -
  let ?key = "fst (entries ! i)"
  have split: "entries = (take i entries @ [entries ! i]) @ drop (Suc i) entries"
    using assms(1) by (simp add: Cons_nth_drop_Suc)
  have later: "?key \<notin> fst ` set (drop (Suc i) entries)"
  proof
    assume "?key \<in> fst ` set (drop (Suc i) entries)"
    then obtain x where x: "x \<in> set (drop (Suc i) entries)" and k: "?key = fst x"
      by (rule imageE)
    from x obtain n where n: "n < length (drop (Suc i) entries)"
      and xn: "drop (Suc i) entries ! n = x"
      by (auto simp: in_set_conv_nth)
    from n have b: "Suc i + n < length entries" by simp
    with xn have "entries ! (Suc i + n) = x" by simp
    with assms(3) [rule_format, of "Suc i + n"] b k show False by simp
  qed
  have "put_all files entries ?key =
          put_all (put_all files (take i entries @ [entries ! i])) (drop (Suc i) entries) ?key"
    by (subst split) (simp only: put_all_append)
  also have "\<dots> = put_all files (take i entries @ [entries ! i]) ?key"
    using later by (rule put_all_other)
  also have "\<dots> = assign (put_all files (take i entries)) ?key (snd (entries ! i)) ?key"
    using put_all_snoc [of files "take i entries" ?key "snd (entries ! i)"] by simp
  also have "\<dots> = Some (snd (entries ! i))"
    using assms(2) by (rule assign_same)
  finally show ?thesis .
qed

lemma put_all_only:
  assumes "(key, url) \<in> set entries" and "\<forall>u. (key, u) \<in> set entries \<longrightarrow> u = url"
    and "key \<noteq> ''__proto__''"
  shows "put_all files entries key = Some url"
  using assms(1,2)
proof (induction entries rule: rev_induct)
  case Nil
  then show ?case by simp
next
  case (snoc x entries)
  obtain k v where x: "x = (k, v)" by (cases x)
  show ?case
  proof (cases "k = key")
    case True
    from snoc.prems(2) have "(key, v) \<in> set (entries @ [x]) \<longrightarrow> v = url" by (rule spec)
    with True x have "v = url" by simp
    with True x assms(3) show ?thesis by (simp add: put_all_snoc assign_same)
  next
    case False
    from snoc.prems(1) False x have a: "(key, url) \<in> set entries" by simp
    have b: "\<forall>u. (key, u) \<in> set entries \<longrightarrow> u = url"
    proof (intro allI impI)
      fix u assume "(key, u) \<in> set entries"
      then have "(key, u) \<in> set (entries @ [x])" by simp
      with snoc.prems(2) show "u = url" by blast
    qed
    from snoc.IH [OF a b] False x show ?thesis by (simp add: put_all_snoc assign_other)
  qed
qed

text \<open>
  The keys of the index after the entries: those it had and those of the entries, but
  \<open>__proto__\<close> only if it was there before.
\<close>

lemma dom_put_all:
  "dom (put_all files entries) =
     dom files \<union> {key \<in> fst ` set entries. key \<noteq> ''__proto__'' \<or> ''__proto__'' \<in> dom files}"
proof (induction entries rule: rev_induct)
  case Nil
  show ?case by (simp add: put_all_Nil)
next
  case (snoc x entries)
  obtain k v where x: "x = (k, v)" by (cases x)
  from snoc.IH have p: "''__proto__'' \<in> dom (put_all files entries) \<longleftrightarrow> ''__proto__'' \<in> dom files"
    by blast
  have "dom (put_all files (entries @ [x])) =
          (if k = ''__proto__'' \<and> ''__proto__'' \<notin> dom files then dom (put_all files entries)
           else insert k (dom (put_all files entries)))"
    by (simp only: x put_all_snoc dom_assign p)
  also have "\<dots> = dom files \<union>
      {key \<in> fst ` set (entries @ [x]). key \<noteq> ''__proto__'' \<or> ''__proto__'' \<in> dom files}"
    unfolding snoc.IH x by auto
  finally show ?case .
qed

lemma card_dom_put_all:
  "card (dom (put_all Map.empty entries)) =
     length (remdups (filter (\<lambda>key. key \<noteq> ''__proto__'') (map fst entries)))"
proof -
  have "dom (put_all Map.empty entries) =
          set (filter (\<lambda>key. key \<noteq> ''__proto__'') (map fst entries))"
    unfolding dom_put_all by auto
  then show ?thesis by (simp only: length_remdups_card_conv)
qed


lemma cached_simps:
  "cached (w\<lparr>shopifyFiles := files\<rparr>) = cached w"
  "cacheFile w = Absent \<Longrightarrow> cached w = Map.empty"
  "cacheFile w = Stored files \<Longrightarrow> cached w = files"
  by (simp_all add: cached_def)

lemma merged_refl: "merged w [] w"
  by (simp add: merged_def put_all_Nil)

lemma merged_trans: "merged w xs w1 \<Longrightarrow> merged w1 ys w2 \<Longrightarrow> merged w (xs @ ys) w2"
  by (simp add: merged_def put_all_append)

lemma merged_warn: "merged w [] (emit (Warn x) w)"
  by (simp add: merged_def put_all_Nil emit_def posts_append persists_append writes_append)

lemma merged_store_image: "url \<noteq> [] \<Longrightarrow> merged w (entry_of cat (Some url)) (store_image cat url w)"
  by (simp add: merged_def store_image_def entry_of_def put_all_def Let_def)

lemma image_edge_step_merged:
  "merged w (entry_of cat (image_url e)) (fst (image_edge_step cat (w, c) e))"
  by (cases "image_url e")
     (simp_all add: merged_warn merged_store_image, simp_all add: entry_of_def merged_warn)

lemma image_edge_step_cursor:
  "snd (image_edge_step cat (w, c) e) = (if truthy (image_url e) then Some (cursor e) else c)"
  by (simp add: truthy_def split: option.splits)

lemma foldl_image_edges:
  "merged w (concat (map (\<lambda>e. entry_of cat (image_url e)) es))
     (fst (foldl (image_edge_step cat) (w, c) es)) \<and>
   (case rev es of
      [] \<Rightarrow> True
    | e # _ \<Rightarrow> truthy (image_url e) \<longrightarrow> snd (foldl (image_edge_step cat) (w, c) es) = Some (cursor e))"
proof (induction es rule: rev_induct)
  case Nil
  show ?case by (simp add: merged_refl)
next
  case (snoc e es)
  obtain w1 c1 where f: "foldl (image_edge_step cat) (w, c) es = (w1, c1)"
    by (cases "foldl (image_edge_step cat) (w, c) es")
  from snoc have m: "merged w (concat (map (\<lambda>e. entry_of cat (image_url e)) es)) w1"
    by (simp add: f)
  from image_edge_step_merged [of w1 cat e c1]
  have "merged w1 (entry_of cat (image_url e)) (fst (image_edge_step cat (w1, c1) e))" .
  from merged_trans [OF m this] image_edge_step_cursor [of cat w1 c1 e]
  show ?case by (simp add: f)
qed

lemma product_image_step_merged: "merged w (entry_of Products u) (product_image_step w u)"
  by (cases u)
     (simp_all add: product_image_step_def merged_warn merged_store_image,
      simp_all add: entry_of_def merged_warn)

lemma foldl_product_images:
  "merged w (concat (map (entry_of Products) us)) (foldl product_image_step w us)"
proof (induction us rule: rev_induct)
  case Nil
  show ?case by (simp add: merged_refl)
next
  case (snoc u us)
  from merged_trans [OF snoc product_image_step_merged [of "foldl product_image_step w us" u]]
  show ?case by simp
qed

lemma foldl_product_edges:
  "merged w (concat (map (\<lambda>e. concat (map (entry_of Products) (p_image_urls e))) es))
     (fst (foldl product_edge_step (w, c) es)) \<and>
   (case rev es of
      [] \<Rightarrow> True
    | e # _ \<Rightarrow> snd (foldl product_edge_step (w, c) es) = Some (p_cursor e))"
proof (induction es rule: rev_induct)
  case Nil
  show ?case by (simp add: merged_refl)
next
  case (snoc e es)
  obtain w1 c1 where f: "foldl product_edge_step (w, c) es = (w1, c1)"
    by (cases "foldl product_edge_step (w, c) es")
  from snoc have m: "merged w (concat (map (\<lambda>e. concat (map (entry_of Products) (p_image_urls e))) es)) w1"
    by (simp add: f)
  from merged_trans [OF m foldl_product_images [of w1 "p_image_urls e"]]
  show ?case by (simp add: f)
qed

lemma merge_response_result:
  assumes "merge_response cat response (w, c) = ((w2, c'), again)"
  shows "merged w (entries_of cat response) w2 \<and> again = has_next cat response \<and>
         (\<forall>k. last_cursor cat response = Some k \<longrightarrow> c' = Some k)"
proof (cases cat)
  case Files
  with assms foldl_image_edges [of w Files "edges (files_page response)" c]
  show ?thesis by (auto split: list.splits if_splits)
next
  case Collections
  with assms foldl_image_edges [of w Collections "edges (collections_page response)" c]
  show ?thesis by (auto split: list.splits if_splits)
next
  case Products
  with assms foldl_product_edges [of w "p_edges (products_page response)" c]
  show ?thesis by (auto split: list.splits if_splits)
qed

lemma serves_tail:
  assumes "serves api k cat (r # rest)" and "rest \<noteq> []"
  shows "serves api (Suc k) cat rest"
proof -
  from assms(1) have a: "\<forall>i<length (r # rest). \<forall>q. api (k + i) q = Ok ((r # rest) ! i)"
    and b: "\<forall>i<length (r # rest). has_next cat ((r # rest) ! i) \<longleftrightarrow> Suc i < length (r # rest)"
    by (simp_all add: serves_def)
  have "api (Suc k + i) q = Ok (rest ! i)" if "i < length rest" for i q
    using a [rule_format, of "Suc i" q] that by simp
  moreover have "has_next cat (rest ! i) \<longleftrightarrow> Suc i < length rest" if "i < length rest" for i
    using b [rule_format, of "Suc i"] that by simp
  ultimately show ?thesis using assms(2) by (simp add: serves_def)
qed

lemma serves_head:
  assumes "serves api k cat (r # rest)"
  shows "api k q = Ok r" and "has_next cat r \<longleftrightarrow> rest \<noteq> []"
proof -
  from assms have a: "\<forall>i<length (r # rest). \<forall>q. api (k + i) q = Ok ((r # rest) ! i)"
    and b: "\<forall>i<length (r # rest). has_next cat ((r # rest) ! i) \<longleftrightarrow> Suc i < length (r # rest)"
    by (simp_all add: serves_def)
  from a [rule_format, of 0 q] show "api k q = Ok r" by simp
  from b [rule_format, of 0] show "has_next cat r \<longleftrightarrow> rest \<noteq> []" by simp
qed

lemma fetch_loop_serves:
  assumes "serves api (shopifyPosts w) cat replies"
  shows "\<exists>w' qs. fetch_loop api cat c w = Some (Inr (), w') \<and>
     shopifyFiles w' = put_all (shopifyFiles w) (concat (map (entries_of cat) replies)) \<and>
     cacheFile w' = cacheFile w \<and>
     shopifyPosts w' = shopifyPosts w + length replies \<and>
     openAiPosts w' = openAiPosts w \<and>
     posts (trace w') = posts (trace w) @ qs \<and>
     length qs = length replies \<and>
     qs ! 0 = Query cat (after_arg c) \<and>
     (\<forall>i k. Suc i < length replies \<and> last_cursor cat (replies ! i) = Some k
        \<longrightarrow> qs ! Suc i = Query cat (after_arg (Some k))) \<and>
     persists (trace w') = persists (trace w) \<and>
     writes (trace w') = writes (trace w)"
  using assms
proof (induction replies arbitrary: w c)
  case Nil
  then show ?case by (simp add: serves_def)
next
  case (Cons r rest)
  let ?q = "Query cat (after_arg c)"
  let ?w1 = "w\<lparr>shopifyPosts := shopifyPosts w + 0 + 1,
               trace := trace w @ concat (replicate 0 [ShopifyPost ?q, Sleep 5000]) @ [ShopifyPost ?q]\<rparr>"
  from serves_head [OF Cons.prems] have ok: "api (shopifyPosts w + 0) ?q = Ok r"
    and nx: "has_next cat r \<longleftrightarrow> rest \<noteq> []" by simp_all
  from safeShopifyQuery_settles [of 0 api w ?q "Ok r"] ok
  have q: "safeShopifyQuery api ?q w = Some (Inr r, ?w1)" by simp
  obtain w2 c' again where m: "merge_response cat r (?w1, c) = ((w2, c'), again)"
    by (metis surj_pair)
  from merge_response_result [OF m] nx have mg: "merged ?w1 (entries_of cat r) w2"
    and ag: "again \<longleftrightarrow> rest \<noteq> []"
    and cu: "\<forall>k. last_cursor cat r = Some k \<longrightarrow> c' = Some k"
    by simp_all
  from mg have f2: "shopifyFiles w2 = put_all (shopifyFiles w) (entries_of cat r)"
    and c2: "cacheFile w2 = cacheFile w" and p2: "shopifyPosts w2 = Suc (shopifyPosts w)"
    and o2: "openAiPosts w2 = openAiPosts w"
    and t2: "posts (trace w2) = posts (trace w) @ [?q]"
    and s2: "persists (trace w2) = persists (trace w)"
    and r2: "writes (trace w2) = writes (trace w)"
    by (simp_all add: merged_def posts_append persists_append writes_append)
  show ?case
  proof (cases "rest = []")
    case True
    with q m ag have "fetch_loop api cat c w = Some (Inr (), w2)"
      by (subst fetch_loop.simps) simp
    with True f2 c2 p2 o2 t2 s2 r2 show ?thesis
      by (intro exI [of _ w2] exI [of _ "[?q]"]) (simp add: put_all_Nil put_all_append)
  next
    case False
    with q m ag have step: "fetch_loop api cat c w = fetch_loop api cat c' w2"
      by (subst fetch_loop.simps) simp
    from serves_tail [OF Cons.prems False] have "serves api (shopifyPosts w2) cat rest"
      by (simp add: p2)
    from Cons.IH [OF this, of c'] obtain w' qs where
      1: "fetch_loop api cat c' w2 = Some (Inr (), w')"
      and 2: "shopifyFiles w' = put_all (shopifyFiles w2) (concat (map (entries_of cat) rest))"
      and 3: "cacheFile w' = cacheFile w2"
      and 4: "shopifyPosts w' = shopifyPosts w2 + length rest"
      and 5: "openAiPosts w' = openAiPosts w2"
      and 6: "posts (trace w') = posts (trace w2) @ qs"
      and 7: "length qs = length rest"
      and 8: "qs ! 0 = Query cat (after_arg c')"
      and 9: "\<forall>i k. Suc i < length rest \<and> last_cursor cat (rest ! i) = Some k
                \<longrightarrow> qs ! Suc i = Query cat (after_arg (Some k))"
      and 10: "persists (trace w') = persists (trace w2)"
      and 11: "writes (trace w') = writes (trace w2)"
      by blast
    have cur: "(?q # qs) ! Suc i = Query cat (after_arg (Some k))"
      if "Suc i < length (r # rest)" "last_cursor cat ((r # rest) ! i) = Some k" for i k
    proof (cases i)
      case 0
      with that cu have "c' = Some k" by simp
      with 8 0 show ?thesis by simp
    next
      case (Suc j)
      with that 9 show ?thesis by simp
    qed
    have g1: "fetch_loop api cat c w = Some (Inr (), w')" by (simp add: step 1)
    have g2: "shopifyFiles w' =
        put_all (shopifyFiles w) (concat (map (entries_of cat) (r # rest)))"
      by (simp add: 2 f2 put_all_append)
    have g3: "cacheFile w' = cacheFile w" by (simp add: 3 c2)
    have g4: "shopifyPosts w' = shopifyPosts w + length (r # rest)" by (simp add: 4 p2)
    have g5: "openAiPosts w' = openAiPosts w" by (simp add: 5 o2)
    have g6: "posts (trace w') = posts (trace w) @ (?q # qs)" by (simp add: 6 t2)
    have g7: "length (?q # qs) = length (r # rest)" by (simp add: 7)
    have g8: "(?q # qs) ! 0 = ?q" by simp
    have g9: "\<forall>i k. Suc i < length (r # rest) \<and> last_cursor cat ((r # rest) ! i) = Some k
        \<longrightarrow> (?q # qs) ! Suc i = Query cat (after_arg (Some k))"
      using cur by blast
    have g10: "persists (trace w') = persists (trace w)" by (simp add: 10 s2)
    have g11: "writes (trace w') = writes (trace w)" by (simp add: 11 r2)
    show ?thesis
      by (intro exI [of _ w'] exI [of _ "?q # qs"] conjI)
         (rule g1 g2 g3 g4 g5 g6 g7 g8 g9 g10 g11)+
  qed
qed

lemma fetch_category_serves:
  assumes "serves api (shopifyPosts w) cat replies" and "cacheFile w \<noteq> Unparsable"
  shows "\<exists>w' qs. fetch_category api cat w = Some (Inr (), w') \<and>
     shopifyFiles w' = put_all (cached w) (concat (map (entries_of cat) replies)) \<and>
     cacheFile w' = Stored (shopifyFiles w') \<and>
     shopifyPosts w' = shopifyPosts w + length replies \<and>
     openAiPosts w' = openAiPosts w \<and>
     posts (trace w') = posts (trace w) @ qs \<and>
     length qs = length replies \<and>
     qs ! 0 = Query cat None \<and>
     (\<forall>i k. Suc i < length replies \<and> last_cursor cat (replies ! i) = Some k
        \<longrightarrow> qs ! Suc i = Query cat (after_arg (Some k))) \<and>
     persists (trace w') = persists (trace w) @ [shopifyFiles w'] \<and>
     writes (trace w') = writes (trace w) \<and>
     last (trace w') = WriteCache (shopifyFiles w')"
proof -
  let ?w0 = "w\<lparr>shopifyFiles := cached w\<rparr>"
  from assms(2) have ld: "load_cache w = (Inr (), ?w0)"
    by (cases "cacheFile w") (simp_all add: load_cache_def cached_def)
  from assms(1) have "serves api (shopifyPosts ?w0) cat replies" by simp
  from fetch_loop_serves [OF this, of None] obtain w1 qs where
    1: "fetch_loop api cat None ?w0 = Some (Inr (), w1)"
    and 2: "shopifyFiles w1 = put_all (shopifyFiles ?w0) (concat (map (entries_of cat) replies))"
    and 3: "cacheFile w1 = cacheFile ?w0"
    and 4: "shopifyPosts w1 = shopifyPosts ?w0 + length replies"
    and 5: "openAiPosts w1 = openAiPosts ?w0"
    and 6: "posts (trace w1) = posts (trace ?w0) @ qs"
    and 7: "length qs = length replies"
    and 8: "qs ! 0 = Query cat (after_arg None)"
    and 9: "\<forall>i k. Suc i < length replies \<and> last_cursor cat (replies ! i) = Some k
              \<longrightarrow> qs ! Suc i = Query cat (after_arg (Some k))"
    and 10: "persists (trace w1) = persists (trace ?w0)"
    and 11: "writes (trace w1) = writes (trace ?w0)"
    by blast
  have g1: "fetch_category api cat w = Some (Inr (), save_cache w1)"
    by (simp add: fetch_category_def and_then_def ld 1)
  have g2: "shopifyFiles (save_cache w1) = put_all (cached w) (concat (map (entries_of cat) replies))"
    by (simp add: save_cache_def emit_def 2)
  have g3: "cacheFile (save_cache w1) = Stored (shopifyFiles (save_cache w1))"
    by (simp add: save_cache_def emit_def)
  have g4: "shopifyPosts (save_cache w1) = shopifyPosts w + length replies"
    by (simp add: save_cache_def emit_def 4)
  have g5: "openAiPosts (save_cache w1) = openAiPosts w"
    by (simp add: save_cache_def emit_def 5)
  have g6: "posts (trace (save_cache w1)) = posts (trace w) @ qs"
    by (simp add: save_cache_def emit_def posts_append 6)
  have g8: "qs ! 0 = Query cat None" by (simp add: 8 after_arg_def)
  have g10: "persists (trace (save_cache w1)) = persists (trace w) @ [shopifyFiles (save_cache w1)]"
    by (simp add: save_cache_def emit_def persists_append 10)
  have g11: "writes (trace (save_cache w1)) = writes (trace w)"
    by (simp add: save_cache_def emit_def writes_append 11)
  have g12: "last (trace (save_cache w1)) = WriteCache (shopifyFiles (save_cache w1))"
    by (simp add: save_cache_def emit_def)
  show ?thesis
    by (intro exI [of _ "save_cache w1"] exI [of _ qs] conjI)
       (rule g1 g2 g3 g4 g5 g6 7 g8 9 g10 g11 g12)+
qed

lemma fetch_by_category:
  "(case cat of
      Files \<Rightarrow> fetchContentImages api w
    | Collections \<Rightarrow> fetchCollectionImages api w
    | Products \<Rightarrow> fetchProductImages api w) = fetch_category api cat w"
  by (cases cat)
     (simp_all add: fetchContentImages_def fetchCollectionImages_def fetchProductImages_def)

lemma fileName_of_examples:
  "fileName_of shoe_url = ''shoe.jpg''"
  "fileName_of other_shoe_url = ''shoe.jpg''"
  "fileName_of shoe_product_url = ''shoe.jpg''"
  "fileName_of hat_url = ''hat.jpg''"
  "fileName_of proto_url = ''__proto__''"
  by (simp_all add: fileName_of_def shoe_url_def other_shoe_url_def shoe_product_url_def hat_url_def
        proto_url_def)

lemma example_urls_not_empty:
  "shoe_url \<noteq> []" "other_shoe_url \<noteq> []" "shoe_product_url \<noteq> []" "hat_url \<noteq> []"
  "proto_url \<noteq> []"
  by (simp_all add: shoe_url_def other_shoe_url_def shoe_product_url_def hat_url_def proto_url_def)

text \<open>
  C1, as the code has it. When the source answers the requests of a sweep with \<open>N\<close>
  replies, of which all but the last tell it to go on, the sweep posts exactly \<open>N\<close>
  requests, returns and writes the cache file once. The first request has no cursor. After
  a reply of \<open>files\<close> or \<open>collections\<close> whose last edge has a url, and after any reply
  of \<open>products\<close> with an edge, the next request carries the cursor of that last edge
  (none if that cursor is the empty string). The index is then the content of the cache
  file read at the start of the sweep, with one entry assigned per item that has a url and
  a file name that is not empty, in their order: an entry whose key is not \<open>__proto__\<close>
  and is not the key of a later entry is in the index with its url, the keys of the index
  are those of the cache file and those of the entries (\<open>__proto__\<close> only if the cache
  file had it), and the other keys hold what the cache file had. Starting without a cache
  file, the size of the index is the number of different keys other than \<open>__proto__\<close>
  among these items.
\<close>

theorem fetch_category_pages:
  assumes "serves api (shopifyPosts w) cat replies" and "cacheFile w \<noteq> Unparsable"
  shows "\<exists>w' qs.
     (case cat of
        Files \<Rightarrow> fetchContentImages api w
      | Collections \<Rightarrow> fetchCollectionImages api w
      | Products \<Rightarrow> fetchProductImages api w) = Some (Inr (), w') \<and>
     shopifyPosts w' = shopifyPosts w + length replies \<and>
     posts (trace w') = posts (trace w) @ qs \<and>
     length qs = length replies \<and>
     qs ! 0 = Query cat None \<and>
     (\<forall>i k. Suc i < length replies \<and> last_cursor cat (replies ! i) = Some k
        \<longrightarrow> qs ! Suc i = Query cat (if k = [] then None else Some k)) \<and>
     shopifyFiles w' = put_all (cached w) (concat (map (entries_of cat) replies)) \<and>
     (\<forall>i<length (concat (map (entries_of cat) replies)).
        fst (concat (map (entries_of cat) replies) ! i) \<noteq> ''__proto__'' \<and>
        (\<forall>j<length (concat (map (entries_of cat) replies)).
           i < j \<longrightarrow> fst (concat (map (entries_of cat) replies) ! j)
                      \<noteq> fst (concat (map (entries_of cat) replies) ! i))
        \<longrightarrow> shopifyFiles w' (fst (concat (map (entries_of cat) replies) ! i)) =
              Some (snd (concat (map (entries_of cat) replies) ! i))) \<and>
     (\<forall>key. key \<notin> fst ` set (concat (map (entries_of cat) replies))
        \<longrightarrow> shopifyFiles w' key = cached w key) \<and>
     dom (shopifyFiles w') =
       dom (cached w) \<union>
       {key \<in> fst ` set (concat (map (entries_of cat) replies)).
          key \<noteq> ''__proto__'' \<or> ''__proto__'' \<in> dom (cached w)} \<and>
     (cacheFile w = Absent \<longrightarrow>
        card (dom (shopifyFiles w')) =
          length (remdups (filter (\<lambda>key. key \<noteq> ''__proto__'')
                             (map fst (concat (map (entries_of cat) replies)))))) \<and>
     persists (trace w') = persists (trace w) @ [shopifyFiles w']"
proof -
  let ?entries = "concat (map (entries_of cat) replies)"
  from fetch_category_serves [OF assms] obtain w' qs where
    1: "fetch_category api cat w = Some (Inr (), w')"
    and 2: "shopifyFiles w' = put_all (cached w) ?entries"
    and 4: "shopifyPosts w' = shopifyPosts w + length replies"
    and 6: "posts (trace w') = posts (trace w) @ qs"
    and 7: "length qs = length replies"
    and 8: "qs ! 0 = Query cat None"
    and 9: "\<forall>i k. Suc i < length replies \<and> last_cursor cat (replies ! i) = Some k
              \<longrightarrow> qs ! Suc i = Query cat (after_arg (Some k))"
    and 10: "persists (trace w') = persists (trace w) @ [shopifyFiles w']"
    by blast
  have g1: "(case cat of
        Files \<Rightarrow> fetchContentImages api w
      | Collections \<Rightarrow> fetchCollectionImages api w
      | Products \<Rightarrow> fetchProductImages api w) = Some (Inr (), w')"
    by (simp only: fetch_by_category 1)
  have g2: "\<forall>i k. Suc i < length replies \<and> last_cursor cat (replies ! i) = Some k
        \<longrightarrow> qs ! Suc i = Query cat (if k = [] then None else Some k)"
    using 9 by (simp add: after_arg_def)
  have g3: "\<forall>i<length ?entries.
        fst (?entries ! i) \<noteq> ''__proto__'' \<and>
        (\<forall>j<length ?entries. i < j \<longrightarrow> fst (?entries ! j) \<noteq> fst (?entries ! i))
        \<longrightarrow> shopifyFiles w' (fst (?entries ! i)) = Some (snd (?entries ! i))"
    unfolding 2 by (intro allI impI) (rule put_all_last, simp_all)
  have g4: "\<forall>key. key \<notin> fst ` set ?entries \<longrightarrow> shopifyFiles w' key = cached w key"
    unfolding 2 by (intro allI impI) (rule put_all_other)
  have g5: "dom (shopifyFiles w') =
       dom (cached w) \<union>
       {key \<in> fst ` set ?entries. key \<noteq> ''__proto__'' \<or> ''__proto__'' \<in> dom (cached w)}"
    by (simp only: 2 dom_put_all)
  have g6: "cacheFile w = Absent \<longrightarrow>
        card (dom (shopifyFiles w')) =
          length (remdups (filter (\<lambda>key. key \<noteq> ''__proto__'') (map fst ?entries)))"
  proof
    assume "cacheFile w = Absent"
    then have "cached w = Map.empty" by (rule cached_simps(2))
    then show "card (dom (shopifyFiles w')) =
          length (remdups (filter (\<lambda>key. key \<noteq> ''__proto__'') (map fst ?entries)))"
      by (simp only: 2 card_dom_put_all)
  qed
  show ?thesis
    by (intro exI [of _ w'] exI [of _ qs] conjI) (rule g1 4 6 7 8 g2 2 g3 g4 g5 g6 10)+
qed

lemma serves_paged_source: "serves paged_source 0 Files two_pages"
  by (simp add: serves_def paged_source_def two_pages_def less_Suc_eq numeral_2_eq_2)

theorem fetch_category_pages_witness:
  "\<exists>w'. fetchContentImages paged_source (start Absent) = Some (Inr (), w') \<and>
     shopifyPosts w' = 2 \<and>
     posts (trace w') = [Query Files None, Query Files (Some ''a1'')] \<and>
     shopifyFiles w' = [''shoe.jpg'' \<mapsto> shoe_url, ''hat.jpg'' \<mapsto> hat_url] \<and>
     card (dom (shopifyFiles w')) = 2 \<and>
     persists (trace w') = [shopifyFiles w']"
proof -
  have e: "concat (map (entries_of Files) two_pages) = [(''shoe.jpg'', shoe_url), (''hat.jpg'', hat_url)]"
    by (simp add: two_pages_def entry_of_def fileName_of_examples example_urls_not_empty)
  have c: "last_cursor Files (two_pages ! 0) = Some ''a1''"
    by (simp add: two_pages_def truthy_def example_urls_not_empty)
  from fetch_category_pages [of paged_source "start Absent" Files two_pages] serves_paged_source
  obtain w' qs where
    1: "fetchContentImages paged_source (start Absent) = Some (Inr (), w')"
    and 2: "shopifyPosts w' = 2"
    and 3: "posts (trace w') = qs" and 4: "length qs = 2"
    and 5: "qs ! 0 = Query Files None"
    and 6: "\<forall>i k. Suc i < 2 \<and> last_cursor Files (two_pages ! i) = Some k
              \<longrightarrow> qs ! Suc i = Query Files (if k = [] then None else Some k)"
    and 7: "shopifyFiles w' = put_all Map.empty (concat (map (entries_of Files) two_pages))"
    and 8: "card (dom (shopifyFiles w')) =
              length (remdups (filter (\<lambda>key. key \<noteq> ''__proto__'')
                                 (map fst (concat (map (entries_of Files) two_pages)))))"
    and 9: "persists (trace w') = [shopifyFiles w']"
    by (auto simp: start_def cached_def two_pages_def)
  from 6 [rule_format, of 0 "''a1''"] c have "qs ! 1 = Query Files (Some ''a1'')" by simp
  with 4 5 have qs: "qs = [Query Files None, Query Files (Some ''a1'')]"
    by (cases qs; cases "tl qs") (auto simp: numeral_2_eq_2)
  from 7 have f: "shopifyFiles w' = [''shoe.jpg'' \<mapsto> shoe_url, ''hat.jpg'' \<mapsto> hat_url]"
    by (simp add: e put_all_def assign_def)
  from 8 have "card (dom (shopifyFiles w')) = 2" by (simp add: e)
  with 1 2 3 qs f 9 show ?thesis by blast
qed

text \<open>
  C1 as it is stated fails in three ways. Where two items have the same file name:
  \<open>twin_source\<close> answers with one page of two images, both with a url, and the index has
  one entry. Where a page of \<open>files\<close> ends with an item without a url: the second request
  to \<open>mixed_source\<close> carries the cursor \<open>m1\<close> of the first edge of the first page, whose
  last edge has the cursor \<open>m2\<close>. Where a file is named \<open>__proto__\<close>: \<open>proto_source\<close>
  answers with one page of one image with a url, and the index is empty.
\<close>

theorem fetchContentImages_counterexample:
  "fetchContentImages twin_source (start Absent) = Some (Inr (), twin_result) \<and>
   length (filter (truthy \<circ> image_url) (edges twin_page)) = 2 \<and>
   card (dom (shopifyFiles twin_result)) = 1 \<and>
   fetchContentImages mixed_source (start Absent) = Some (Inr (), mixed_result) \<and>
   cursor (last (edges (files_page (mixed_pages ! 0)))) = ''m2'' \<and>
   posts (trace mixed_result) = [Query Files None, Query Files (Some ''m1'')] \<and>
   fetchContentImages proto_source (start Absent) = Some (Inr (), proto_result) \<and>
   length (filter (truthy \<circ> image_url) (edges proto_page)) = 1 \<and>
   card (dom (shopifyFiles proto_result)) = 0"
proof -
  let ?w0 = "\<lparr>shopifyFiles = Map.empty, cacheFile = Absent, shopifyPosts = 0, openAiPosts = 0,
              trace = []\<rparr>"
  let ?w1 = "\<lparr>shopifyFiles = Map.empty, cacheFile = Absent, shopifyPosts = Suc 0, openAiPosts = 0,
              trace = [ShopifyPost (Query Files None)]\<rparr>"
  have ld: "load_cache (start Absent) = (Inr (), ?w0)"
    by (simp add: load_cache_def start_def)
  have twins: "fetchContentImages twin_source (start Absent) = Some (Inr (), twin_result)"
  proof -
    let ?w2 = "\<lparr>shopifyFiles = [''shoe.jpg'' \<mapsto> other_shoe_url], cacheFile = Absent,
                shopifyPosts = Suc 0, openAiPosts = 0, trace = [ShopifyPost (Query Files None)]\<rparr>"
    have q: "safeShopifyQuery twin_source (Query Files None) ?w0 =
               Some (Inr (FilesData twin_page), ?w1)"
      by (subst safeShopifyQuery.simps) (simp add: post_shopify_def twin_source_def emit_def)
    have m: "merge_response Files (FilesData twin_page) (?w1, None) = ((?w2, Some ''c2''), False)"
      by (simp add: twin_page_def store_image_def assign_def fileName_of_examples
            example_urls_not_empty)
    have l: "fetch_loop twin_source Files None ?w0 = Some (Inr (), ?w2)"
      by (subst fetch_loop.simps) (simp add: after_arg_def q m del: merge_response.simps)
    have sv: "save_cache ?w2 = twin_result"
      by (simp add: save_cache_def emit_def twin_result_def)
    show ?thesis
      by (simp add: fetchContentImages_def fetch_category_def and_then_def ld l sv)
  qed
  have mixed: "fetchContentImages mixed_source (start Absent) = Some (Inr (), mixed_result)"
  proof -
    let ?p0 = "FilesData \<lparr>edges = [\<lparr>cursor = ''m1'', image_url = Some shoe_url\<rparr>,
                                    \<lparr>cursor = ''m2'', image_url = None\<rparr>], hasNextPage = True\<rparr>"
    let ?p1 = "FilesData \<lparr>edges = [\<lparr>cursor = ''n1'', image_url = Some hat_url\<rparr>],
                          hasNextPage = False\<rparr>"
    let ?w2 = "\<lparr>shopifyFiles = [''shoe.jpg'' \<mapsto> shoe_url], cacheFile = Absent,
                shopifyPosts = Suc 0, openAiPosts = 0,
                trace = [ShopifyPost (Query Files None), Warn (MissingUrl Files)]\<rparr>"
    let ?w3 = "\<lparr>shopifyFiles = [''shoe.jpg'' \<mapsto> shoe_url], cacheFile = Absent,
                shopifyPosts = Suc (Suc 0), openAiPosts = 0,
                trace = [ShopifyPost (Query Files None), Warn (MissingUrl Files),
                         ShopifyPost (Query Files (Some ''m1''))]\<rparr>"
    let ?w4 = "\<lparr>shopifyFiles = [''shoe.jpg'' \<mapsto> shoe_url, ''hat.jpg'' \<mapsto> hat_url],
                cacheFile = Absent, shopifyPosts = Suc (Suc 0), openAiPosts = 0,
                trace = [ShopifyPost (Query Files None), Warn (MissingUrl Files),
                         ShopifyPost (Query Files (Some ''m1''))]\<rparr>"
    have q0: "safeShopifyQuery mixed_source (Query Files None) ?w0 = Some (Inr ?p0, ?w1)"
      by (subst safeShopifyQuery.simps)
         (simp add: post_shopify_def mixed_source_def mixed_pages_def emit_def)
    have m0: "merge_response Files ?p0 (?w1, None) = ((?w2, Some ''m1''), True)"
      by (simp add: store_image_def assign_def emit_def fileName_of_examples
            example_urls_not_empty)
    have q1: "safeShopifyQuery mixed_source (Query Files (Some ''m1'')) ?w2 = Some (Inr ?p1, ?w3)"
      by (subst safeShopifyQuery.simps)
         (simp add: post_shopify_def mixed_source_def mixed_pages_def emit_def)
    have m1: "merge_response Files ?p1 (?w3, Some ''m1'') = ((?w4, Some ''n1''), False)"
      by (simp add: store_image_def assign_def emit_def fileName_of_examples
            example_urls_not_empty)
    have l1: "fetch_loop mixed_source Files (Some ''m1'') ?w2 = Some (Inr (), ?w4)"
      by (subst fetch_loop.simps) (simp add: after_arg_def q1 m1 del: merge_response.simps)
    have l0: "fetch_loop mixed_source Files None ?w0 = Some (Inr (), ?w4)"
      by (subst fetch_loop.simps) (simp add: after_arg_def q0 m0 l1 del: merge_response.simps)
    have sv: "save_cache ?w4 = mixed_result"
      by (simp add: save_cache_def emit_def mixed_result_def)
    show ?thesis
      by (simp add: fetchContentImages_def fetch_category_def and_then_def ld l0 sv)
  qed
  have proto: "fetchContentImages proto_source (start Absent) = Some (Inr (), proto_result)"
  proof -
    have q: "safeShopifyQuery proto_source (Query Files None) ?w0 =
               Some (Inr (FilesData proto_page), ?w1)"
      by (subst safeShopifyQuery.simps) (simp add: post_shopify_def proto_source_def emit_def)
    have m: "merge_response Files (FilesData proto_page) (?w1, None) = ((?w1, Some ''x1''), False)"
      by (simp add: proto_page_def store_image_def assign_def fileName_of_examples
            example_urls_not_empty)
    have l: "fetch_loop proto_source Files None ?w0 = Some (Inr (), ?w1)"
      by (subst fetch_loop.simps) (simp add: after_arg_def q m del: merge_response.simps)
    have sv: "save_cache ?w1 = proto_result"
      by (simp add: save_cache_def emit_def proto_result_def)
    show ?thesis
      by (simp add: fetchContentImages_def fetch_category_def and_then_def ld l sv)
  qed
  have "length (filter (truthy \<circ> image_url) (edges twin_page)) = 2"
    by (simp add: twin_page_def truthy_def example_urls_not_empty)
  moreover have "card (dom (shopifyFiles twin_result)) = 1"
    by (simp add: twin_result_def)
  moreover have "cursor (last (edges (files_page (mixed_pages ! 0)))) = ''m2''"
    by (simp add: mixed_pages_def)
  moreover have "posts (trace mixed_result) = [Query Files None, Query Files (Some ''m1'')]"
    by (simp add: mixed_result_def)
  moreover have "length (filter (truthy \<circ> image_url) (edges proto_page)) = 1"
    by (simp add: proto_page_def truthy_def example_urls_not_empty)
  moreover have "card (dom (shopifyFiles proto_result)) = 0"
    by (simp add: proto_result_def)
  ultimately show ?thesis using twins mixed proto by blast
qed


subsection \<open>The three sweeps\<close>

text \<open>
  Where the cursor is left: an edge of \<open>files\<close> or \<open>collections\<close> without a url does not
  move it, an edge of \<open>products\<close> always does.
\<close>

lemma cursor_skips_edge_without_url:
  "\<not> truthy (image_url e) \<Longrightarrow>
   snd (foldl (image_edge_step cat) (w, c) (es @ [e])) = snd (foldl (image_edge_step cat) (w, c) es)"
  by (cases "foldl (image_edge_step cat) (w, c) es") (simp add: truthy_def split: option.splits)

lemma cursor_of_last_product_edge:
  "snd (foldl product_edge_step (w, c) (es @ [e])) = Some (p_cursor e)"
  by (cases "foldl product_edge_step (w, c) es") simp

lemma fetchShopifyFiles_serves:
  assumes f: "serves api (shopifyPosts w) Files fs"
    and c: "serves api (shopifyPosts w + length fs) Collections cs"
    and p: "serves api (shopifyPosts w + length fs + length cs) Products ps"
    and ok: "cacheFile w \<noteq> Unparsable"
  shows "\<exists>w'. fetchShopifyFiles api w = Some (Inr (), w') \<and>
     shopifyFiles w' =
       put_all (cached w) (concat (map (entries_of Files) fs)
         @ concat (map (entries_of Collections) cs) @ concat (map (entries_of Products) ps)) \<and>
     cacheFile w' = Stored (shopifyFiles w') \<and>
     shopifyPosts w' = shopifyPosts w + length fs + length cs + length ps \<and>
     openAiPosts w' = openAiPosts w \<and>
     persists (trace w') = persists (trace w) @
       [put_all (cached w) (concat (map (entries_of Files) fs)),
        put_all (cached w) (concat (map (entries_of Files) fs)
          @ concat (map (entries_of Collections) cs)),
        put_all (cached w) (concat (map (entries_of Files) fs)
          @ concat (map (entries_of Collections) cs) @ concat (map (entries_of Products) ps))] \<and>
     length (posts (trace w')) = length (posts (trace w)) + length fs + length cs + length ps \<and>
     writes (trace w') = writes (trace w)"
proof -
  let ?F = "concat (map (entries_of Files) fs)"
  let ?C = "concat (map (entries_of Collections) cs)"
  let ?P = "concat (map (entries_of Products) ps)"
  let ?w0 = "w\<lparr>shopifyFiles := Map.empty\<rparr>"
  from f have f0: "serves api (shopifyPosts ?w0) Files fs" by simp
  from ok have ok0: "cacheFile ?w0 \<noteq> Unparsable" by simp
  from fetch_category_serves [OF f0 ok0] obtain w1 q1 where
    a1: "fetch_category api Files ?w0 = Some (Inr (), w1)"
    and a2: "shopifyFiles w1 = put_all (cached ?w0) ?F"
    and a3: "cacheFile w1 = Stored (shopifyFiles w1)"
    and a4: "shopifyPosts w1 = shopifyPosts ?w0 + length fs"
    and a5: "openAiPosts w1 = openAiPosts ?w0"
    and a6: "posts (trace w1) = posts (trace ?w0) @ q1" and a7: "length q1 = length fs"
    and a8: "persists (trace w1) = persists (trace ?w0) @ [shopifyFiles w1]"
    and a9: "writes (trace w1) = writes (trace ?w0)"
    by blast
  from c a4 have c1: "serves api (shopifyPosts w1) Collections cs" by simp
  from a3 have ok1: "cacheFile w1 \<noteq> Unparsable" by simp
  from a3 have k1: "cached w1 = shopifyFiles w1" by (simp add: cached_def)
  from fetch_category_serves [OF c1 ok1] obtain w2 q2 where
    b1: "fetch_category api Collections w1 = Some (Inr (), w2)"
    and b2: "shopifyFiles w2 = put_all (cached w1) ?C"
    and b3: "cacheFile w2 = Stored (shopifyFiles w2)"
    and b4: "shopifyPosts w2 = shopifyPosts w1 + length cs"
    and b5: "openAiPosts w2 = openAiPosts w1"
    and b6: "posts (trace w2) = posts (trace w1) @ q2" and b7: "length q2 = length cs"
    and b8: "persists (trace w2) = persists (trace w1) @ [shopifyFiles w2]"
    and b9: "writes (trace w2) = writes (trace w1)"
    by blast
  from p a4 b4 have p2: "serves api (shopifyPosts w2) Products ps" by simp
  from b3 have ok2: "cacheFile w2 \<noteq> Unparsable" by simp
  from b3 have k2: "cached w2 = shopifyFiles w2" by (simp add: cached_def)
  from fetch_category_serves [OF p2 ok2] obtain w3 q3 where
    d1: "fetch_category api Products w2 = Some (Inr (), w3)"
    and d2: "shopifyFiles w3 = put_all (cached w2) ?P"
    and d3: "cacheFile w3 = Stored (shopifyFiles w3)"
    and d4: "shopifyPosts w3 = shopifyPosts w2 + length ps"
    and d5: "openAiPosts w3 = openAiPosts w2"
    and d6: "posts (trace w3) = posts (trace w2) @ q3" and d7: "length q3 = length ps"
    and d8: "persists (trace w3) = persists (trace w2) @ [shopifyFiles w3]"
    and d9: "writes (trace w3) = writes (trace w2)"
    by blast
  have s1: "shopifyFiles w1 = put_all (cached w) ?F" by (simp add: a2 cached_simps(1))
  have s2: "shopifyFiles w2 = put_all (cached w) (?F @ ?C)"
    by (simp only: b2 k1 s1 put_all_append)
  have s3: "shopifyFiles w3 = put_all (cached w) (?F @ ?C @ ?P)"
    by (simp only: d2 k2 s2 put_all_append append_assoc)
  have g1: "fetchShopifyFiles api w = Some (Inr (), w3)"
    by (simp add: fetchShopifyFiles_def fetchContentImages_def fetchCollectionImages_def
          fetchProductImages_def and_then_def a1 b1 d1)
  have g4: "shopifyPosts w3 = shopifyPosts w + length fs + length cs + length ps"
    by (simp add: d4 b4 a4)
  have g5: "openAiPosts w3 = openAiPosts w" by (simp add: d5 b5 a5)
  have g6: "persists (trace w3) = persists (trace w) @
       [put_all (cached w) ?F, put_all (cached w) (?F @ ?C), put_all (cached w) (?F @ ?C @ ?P)]"
  proof -
    from a8 have a8': "persists (trace w1) = persists (trace w) @ [shopifyFiles w1]" by simp
    show ?thesis
      by (simp only: d8 b8 a8' s1 s2 s3 append_assoc append_Cons append_Nil)
  qed
  have g7: "length (posts (trace w3)) = length (posts (trace w)) + length fs + length cs + length ps"
    by (simp add: d6 b6 a6 a7 b7 d7)
  have g8: "writes (trace w3) = writes (trace w)" by (simp add: d9 b9 a9)
  show ?thesis
    by (intro exI [of _ w3] conjI) (rule g1 s3 d3 g4 g5 g6 g7 g8)+
qed

lemma entry_key:
  assumes "(key, url) \<in> set (entry_of cat u)"
  shows "key = fileName_of url @ key_suffix cat \<and> u = Some url"
  using assms by (cases u) (auto simp: entry_of_def split: if_splits)

lemma entries_of_key:
  assumes "(key, url) \<in> set (entries_of cat response)"
  shows "key = fileName_of url @ key_suffix cat"
  using assms by (cases cat) (auto dest: entry_key)

lemma entries_key:
  assumes "(key, url) \<in> set (concat (map (entries_of cat) replies))"
  shows "key = fileName_of url @ key_suffix cat"
  using assms by (auto dest: entries_of_key)

lemma shoe_not_suffixed:
  "''shoe.jpg'' \<noteq> name @ ''_collection''" "''shoe.jpg'' \<noteq> name @ ''_product''"
proof -
  show "''shoe.jpg'' \<noteq> name @ ''_collection''"
  proof
    assume "''shoe.jpg'' = name @ ''_collection''"
    then have "last ''shoe.jpg'' = last (name @ ''_collection'')" by (rule arg_cong)
    then show False by simp
  qed
  show "''shoe.jpg'' \<noteq> name @ ''_product''"
  proof
    assume "''shoe.jpg'' = name @ ''_product''"
    then have "last ''shoe.jpg'' = last (name @ ''_product'')" by (rule arg_cong)
    then show False by simp
  qed
qed

text \<open>
  C5. When the source answers the three sweeps page by page, \<open>fetchShopifyFiles\<close> returns
  with an index and a cache file in which the content image whose file name is
  \<open>shoe.jpg\<close> is under the key \<open>shoe.jpg\<close> and the product image whose file name is
  \<open>shoe.jpg\<close> is under the key \<open>shoe.jpg_product\<close>, each with its own url: the sweeps of
  collections and products write no key \<open>shoe.jpg\<close>, and the entry of the product does not
  touch it.
\<close>

theorem fetchShopifyFiles_keeps_both:
  assumes "serves api (shopifyPosts w) Files fs"
    and "serves api (shopifyPosts w + length fs) Collections cs"
    and "serves api (shopifyPosts w + length fs + length cs) Products ps"
    and "cacheFile w \<noteq> Unparsable"
    and "(''shoe.jpg'', content_url) \<in> set (concat (map (entries_of Files) fs))"
    and "\<forall>u. (''shoe.jpg'', u) \<in> set (concat (map (entries_of Files) fs)) \<longrightarrow> u = content_url"
    and "(''shoe.jpg_product'', product_url) \<in> set (concat (map (entries_of Products) ps))"
    and "\<forall>u. (''shoe.jpg_product'', u) \<in> set (concat (map (entries_of Products) ps))
           \<longrightarrow> u = product_url"
  shows "\<exists>w'. fetchShopifyFiles api w = Some (Inr (), w') \<and>
     shopifyFiles w' ''shoe.jpg'' = Some content_url \<and>
     shopifyFiles w' ''shoe.jpg_product'' = Some product_url \<and>
     cacheFile w' = Stored (shopifyFiles w') \<and>
     fileName_of content_url = ''shoe.jpg'' \<and> fileName_of product_url = ''shoe.jpg''"
proof -
  let ?F = "concat (map (entries_of Files) fs)"
  let ?C = "concat (map (entries_of Collections) cs)"
  let ?P = "concat (map (entries_of Products) ps)"
  from fetchShopifyFiles_serves [OF assms(1-4)] obtain w' where
    1: "fetchShopifyFiles api w = Some (Inr (), w')"
    and 2: "shopifyFiles w' = put_all (cached w) (?F @ ?C @ ?P)"
    and 3: "cacheFile w' = Stored (shopifyFiles w')"
    by blast
  have nc: "''shoe.jpg'' \<notin> fst ` set ?C"
  proof
    assume "''shoe.jpg'' \<in> fst ` set ?C"
    then obtain x where "x \<in> set ?C" and "''shoe.jpg'' = fst x" by (rule imageE)
    then obtain u where "(''shoe.jpg'', u) \<in> set ?C" by (metis prod.collapse)
    from entries_key [OF this] shoe_not_suffixed(1) [of "fileName_of u"] show False by simp
  qed
  have np: "''shoe.jpg'' \<notin> fst ` set ?P"
  proof
    assume "''shoe.jpg'' \<in> fst ` set ?P"
    then obtain x where "x \<in> set ?P" and "''shoe.jpg'' = fst x" by (rule imageE)
    then obtain u where "(''shoe.jpg'', u) \<in> set ?P" by (metis prod.collapse)
    from entries_key [OF this] shoe_not_suffixed(2) [of "fileName_of u"] show False by simp
  qed
  have "shopifyFiles w' ''shoe.jpg'' = put_all (put_all (put_all (cached w) ?F) ?C) ?P ''shoe.jpg''"
    by (simp only: 2 put_all_append)
  also have "\<dots> = put_all (put_all (cached w) ?F) ?C ''shoe.jpg''"
    using np by (rule put_all_other)
  also have "\<dots> = put_all (cached w) ?F ''shoe.jpg''"
    using nc by (rule put_all_other)
  also have "\<dots> = Some content_url"
    using assms(5,6) by (rule put_all_only) simp
  finally have a: "shopifyFiles w' ''shoe.jpg'' = Some content_url" .
  have "shopifyFiles w' ''shoe.jpg_product'' =
          put_all (put_all (cached w) (?F @ ?C)) ?P ''shoe.jpg_product''"
    by (simp only: 2 put_all_append append_assoc)
  also have "\<dots> = Some product_url"
    using assms(7,8) by (rule put_all_only) simp
  finally have b: "shopifyFiles w' ''shoe.jpg_product'' = Some product_url" .
  from entries_key [OF assms(5)] have c: "fileName_of content_url = ''shoe.jpg''" by simp
  from entries_key [OF assms(7)] have d: "fileName_of product_url = ''shoe.jpg''" by simp
  from 1 a b 3 c d show ?thesis by blast
qed

lemma serves_shop:
  "serves shop 0 Files [FilesData shop_files]"
  "serves shop 1 Collections [CollectionsData \<lparr>edges = [], hasNextPage = False\<rparr>]"
  "serves shop 2 Products [ProductsData shop_products]"
  by (simp_all add: serves_def shop_def shop_files_def shop_products_def)

theorem fetchShopifyFiles_keeps_both_witness:
  "\<exists>w'. fetchShopifyFiles shop (start Absent) = Some (Inr (), w') \<and>
     shopifyFiles w' ''shoe.jpg'' = Some shoe_url \<and>
     shopifyFiles w' ''shoe.jpg_product'' = Some shoe_product_url \<and>
     cacheFile w' = Stored (shopifyFiles w')"
proof -
  have f: "concat (map (entries_of Files) [FilesData shop_files]) = [(''shoe.jpg'', shoe_url)]"
    by (simp add: shop_files_def entry_of_def fileName_of_examples example_urls_not_empty)
  have p: "concat (map (entries_of Products) [ProductsData shop_products]) =
             [(''shoe.jpg_product'', shoe_product_url)]"
    by (simp add: shop_products_def entry_of_def fileName_of_examples example_urls_not_empty)
  let ?fs = "[FilesData shop_files]"
  let ?cs = "[CollectionsData \<lparr>edges = [], hasNextPage = False\<rparr>]"
  let ?ps = "[ProductsData shop_products]"
  have p1: "serves shop (shopifyPosts (start Absent)) Files ?fs"
    and p2: "serves shop (shopifyPosts (start Absent) + length ?fs) Collections ?cs"
    and p3: "serves shop (shopifyPosts (start Absent) + length ?fs + length ?cs) Products ?ps"
    using serves_shop by (simp_all add: start_def numeral_2_eq_2)
  have p4: "cacheFile (start Absent) \<noteq> Unparsable" by (simp add: start_def)
  have p5: "(''shoe.jpg'', shoe_url) \<in> set (concat (map (entries_of Files) ?fs))"
    and p6: "\<forall>u. (''shoe.jpg'', u) \<in> set (concat (map (entries_of Files) ?fs)) \<longrightarrow> u = shoe_url"
    unfolding f by simp_all
  have p7: "(''shoe.jpg_product'', shoe_product_url) \<in> set (concat (map (entries_of Products) ?ps))"
    and p8: "\<forall>u. (''shoe.jpg_product'', u) \<in> set (concat (map (entries_of Products) ?ps))
               \<longrightarrow> u = shoe_product_url"
    unfolding p by simp_all
  from fetchShopifyFiles_keeps_both [OF p1 p2 p3 p4 p5 p6 p7 p8]
  show ?thesis by blast
qed

subsection \<open>The run: cache file or sweeps\<close>

lemma quiet_offline: "quiet w w' \<Longrightarrow> offline w w'"
  by (simp add: quiet_def offline_def)

lemma offline_refl: "offline w w"
  by (simp add: offline_def)

lemma offline_trans: "offline w w1 \<Longrightarrow> offline w1 w2 \<Longrightarrow> offline w w2"
  by (simp add: offline_def)

lemma offline_emit: "posts [e] = [] \<Longrightarrow> persists [e] = [] \<Longrightarrow> offline w (emit e w)"
  by (simp add: offline_def emit_def posts_append persists_append)

lemma process_chunks_offline:
  "process_chunks gen rows i done w = Some (chunks, w') \<Longrightarrow> offline w w'"
proof (induction gen rows i "done" w rule: process_chunks.induct)
  case (1 gen rows i "done" w)
  show ?case
  proof (cases "i < length rows")
    case False
    with "1.prems" show ?thesis
      by (simp add: process_chunks.simps [of gen rows i] offline_refl)
  next
    case True
    from "1.prems" True obtain chunk' w1 where
      c: "process_rows gen i (take openAiChunkSize (drop i rows)) w = Some (chunk', w1)"
      and rest: "process_chunks gen rows (i + openAiChunkSize) (done @ [chunk'])
                   (emit (Sleep openAiChunkDelay) w1) = Some (chunks, w')"
      by (subst (asm) process_chunks.simps) (auto split: option.splits)
    from process_rows_result [OF c] have "offline w w1" by (simp add: quiet_offline)
    moreover have "offline w1 (emit (Sleep openAiChunkDelay) w1)"
      by (rule offline_emit) simp_all
    moreover from "1.IH" [OF True c refl rest]
    have "offline (emit (Sleep openAiChunkDelay) w1) w'" .
    ultimately show ?thesis by (blast intro: offline_trans)
  qed
qed

lemma processBatch_offline:
  assumes "processBatch gen rows w = Some w'"
  shows "offline w w'"
proof -
  from assms obtain chunks w1 where
    c: "process_chunks gen rows 0 [] w = Some (chunks, w1)"
    and w': "w' = emit (WriteRecords (map without_link (concat chunks))) w1"
    by (auto simp: processBatch_def split: option.splits)
  from process_chunks_offline [OF c] have "offline w w1" .
  moreover have "offline w1 w'" unfolding w' by (rule offline_emit) simp_all
  ultimately show ?thesis by (rule offline_trans)
qed

lemma process_batches_offline:
  "process_batches gen batch i w = Some w' \<Longrightarrow> offline w w'"
proof (induction gen batch i w rule: process_batches.induct)
  case (1 gen batch i w)
  show ?case
  proof (cases "i < length batch")
    case False
    with "1.prems" show ?thesis
      by (simp add: process_batches.simps [of gen batch i] offline_refl)
  next
    case True
    from "1.prems" True obtain w1 where
      b: "processBatch gen (take batchSize (drop i batch)) w = Some w1"
      and rest: "process_batches gen batch (i + batchSize) w1 = Some w'"
      by (subst (asm) process_batches.simps) (auto split: option.splits)
    from processBatch_offline [OF b] "1.IH" [OF True b rest] show ?thesis
      by (rule offline_trans)
  qed
qed

lemma processCsv_offline: "processCsv gen input w = Some w' \<Longrightarrow> offline w w'"
  unfolding processCsv_def by (rule process_batches_offline)

text \<open>
  C2, as the code has it. If the cache file exists when the run starts, the index is what
  the file holds and the builder is not called: the run is the enrichment of the input
  with that index, nothing is asked of the source API and the cache file is not written.
  If there is no cache file, the index starts empty and \<open>fetchShopifyFiles\<close> sweeps
  files, collections and products in this order; when the source answers the three sweeps
  page by page, the cache file is written three times, after each sweep, each time with all
  that has been merged so far, and the enrichment runs on the index of the third write.
\<close>

theorem run_loads_or_fetches:
  "(\<forall>files. cacheFile w = Stored files \<longrightarrow>
      run api gen input w =
        map_option (Pair (Inr ())) (processCsv gen input (w\<lparr>shopifyFiles := files\<rparr>)) \<and>
      (\<forall>r w'. run api gen input w = Some (r, w') \<longrightarrow>
         posts (trace w') = posts (trace w) \<and> shopifyPosts w' = shopifyPosts w \<and>
         persists (trace w') = persists (trace w) \<and>
         shopifyFiles w' = files \<and> cacheFile w' = Stored files)) \<and>
   (cacheFile w = Absent \<and>
    serves api (shopifyPosts w) Files fs \<and>
    serves api (shopifyPosts w + length fs) Collections cs \<and>
    serves api (shopifyPosts w + length fs + length cs) Products ps \<longrightarrow>
      (\<exists>w1. fetchShopifyFiles api w = Some (Inr (), w1) \<and>
         persists (trace w1) = persists (trace w) @
           [put_all Map.empty (concat (map (entries_of Files) fs)),
            put_all Map.empty (concat (map (entries_of Files) fs)
              @ concat (map (entries_of Collections) cs)),
            put_all Map.empty (concat (map (entries_of Files) fs)
              @ concat (map (entries_of Collections) cs)
              @ concat (map (entries_of Products) ps))] \<and>
         shopifyFiles w1 =
           put_all Map.empty (concat (map (entries_of Files) fs)
              @ concat (map (entries_of Collections) cs)
              @ concat (map (entries_of Products) ps)) \<and>
         cacheFile w1 = Stored (shopifyFiles w1) \<and>
         length (posts (trace w1)) = length (posts (trace w)) + length fs + length cs + length ps \<and>
         run api gen input w = map_option (Pair (Inr ())) (processCsv gen input w1)))"
proof (intro conjI allI impI)
  fix files
  assume st: "cacheFile w = Stored files"
  then show r: "run api gen input w =
        map_option (Pair (Inr ())) (processCsv gen input (w\<lparr>shopifyFiles := files\<rparr>))"
    by (simp add: run_def and_then_def)
  fix r' w'
  assume "run api gen input w = Some (r', w')"
  with r have "map_option (Pair (Inr ())) (processCsv gen input (w\<lparr>shopifyFiles := files\<rparr>))
      = Some (r', w')" by simp
  then have "processCsv gen input (w\<lparr>shopifyFiles := files\<rparr>) = Some w'"
    by (cases "processCsv gen input (w\<lparr>shopifyFiles := files\<rparr>)") simp_all
  from processCsv_offline [OF this] st
  show "posts (trace w') = posts (trace w)" "shopifyPosts w' = shopifyPosts w"
    "persists (trace w') = persists (trace w)"
    "shopifyFiles w' = files" "cacheFile w' = Stored files"
    by (simp_all add: offline_def)
next
  assume h: "cacheFile w = Absent \<and>
    serves api (shopifyPosts w) Files fs \<and>
    serves api (shopifyPosts w + length fs) Collections cs \<and>
    serves api (shopifyPosts w + length fs + length cs) Products ps"
  then have ab: "cacheFile w = Absent" and ok: "cacheFile w \<noteq> Unparsable"
    and f: "serves api (shopifyPosts w) Files fs"
    and c: "serves api (shopifyPosts w + length fs) Collections cs"
    and p: "serves api (shopifyPosts w + length fs + length cs) Products ps"
    by simp_all
  from ab have e: "cached w = Map.empty" by (rule cached_simps(2))
  from fetchShopifyFiles_serves [OF f c p ok] obtain w1 where
    1: "fetchShopifyFiles api w = Some (Inr (), w1)"
    and 2: "shopifyFiles w1 =
       put_all (cached w) (concat (map (entries_of Files) fs)
         @ concat (map (entries_of Collections) cs) @ concat (map (entries_of Products) ps))"
    and 3: "cacheFile w1 = Stored (shopifyFiles w1)"
    and 4: "persists (trace w1) = persists (trace w) @
       [put_all (cached w) (concat (map (entries_of Files) fs)),
        put_all (cached w) (concat (map (entries_of Files) fs)
          @ concat (map (entries_of Collections) cs)),
        put_all (cached w) (concat (map (entries_of Files) fs)
          @ concat (map (entries_of Collections) cs) @ concat (map (entries_of Products) ps))]"
    and 5: "length (posts (trace w1)) = length (posts (trace w)) + length fs + length cs + length ps"
    by blast
  have 6: "run api gen input w = map_option (Pair (Inr ())) (processCsv gen input w1)"
    by (simp add: run_def and_then_def ab 1)
  show "\<exists>w1. fetchShopifyFiles api w = Some (Inr (), w1) \<and>
         persists (trace w1) = persists (trace w) @
           [put_all Map.empty (concat (map (entries_of Files) fs)),
            put_all Map.empty (concat (map (entries_of Files) fs)
              @ concat (map (entries_of Collections) cs)),
            put_all Map.empty (concat (map (entries_of Files) fs)
              @ concat (map (entries_of Collections) cs)
              @ concat (map (entries_of Products) ps))] \<and>
         shopifyFiles w1 =
           put_all Map.empty (concat (map (entries_of Files) fs)
              @ concat (map (entries_of Collections) cs)
              @ concat (map (entries_of Products) ps)) \<and>
         cacheFile w1 = Stored (shopifyFiles w1) \<and>
         length (posts (trace w1)) = length (posts (trace w)) + length fs + length cs + length ps \<and>
         run api gen input w = map_option (Pair (Inr ())) (processCsv gen input w1)"
    using 1 2 3 4 5 6 unfolding e by (intro exI [of _ w1]) simp
qed

theorem run_loads_or_fetches_witness:
  "run shop describes [] (start (Stored old_cache)) =
     map_option (Pair (Inr ()))
       (processCsv describes [] ((start (Stored old_cache))\<lparr>shopifyFiles := old_cache\<rparr>)) \<and>
   (\<exists>w1. fetchShopifyFiles shop (start Absent) = Some (Inr (), w1) \<and>
      length (persists (trace w1)) = 3 \<and>
      length (posts (trace w1)) = 3 \<and>
      cacheFile w1 = Stored (shopifyFiles w1) \<and>
      run shop describes [] (start Absent) =
        map_option (Pair (Inr ())) (processCsv describes [] w1))"
proof -
  let ?fs = "[FilesData shop_files]"
  let ?cs = "[CollectionsData \<lparr>edges = [], hasNextPage = False\<rparr>]"
  let ?ps = "[ProductsData shop_products]"
  have p0: "cacheFile (start Absent) = Absent" "cacheFile (start (Stored old_cache)) = Stored old_cache"
    by (simp_all add: start_def)
  have p1: "serves shop (shopifyPosts (start Absent)) Files ?fs"
    and p2: "serves shop (shopifyPosts (start Absent) + length ?fs) Collections ?cs"
    and p3: "serves shop (shopifyPosts (start Absent) + length ?fs + length ?cs) Products ?ps"
    using serves_shop by (simp_all add: start_def numeral_2_eq_2)
  have e: "persists (trace (start Absent)) = []" "posts (trace (start Absent)) = []"
    by (simp_all add: start_def)
  from run_loads_or_fetches [of "start (Stored old_cache)" shop describes "[]" "[]" "[]" "[]"] p0
  have a: "run shop describes [] (start (Stored old_cache)) =
     map_option (Pair (Inr ()))
       (processCsv describes [] ((start (Stored old_cache))\<lparr>shopifyFiles := old_cache\<rparr>))"
    by blast
  from run_loads_or_fetches [of "start Absent" shop describes "[]" ?fs ?cs ?ps] p0 p1 p2 p3
  obtain w1 where "fetchShopifyFiles shop (start Absent) = Some (Inr (), w1)"
    and "length (persists (trace w1)) = 3" and "length (posts (trace w1)) = 3"
    and "cacheFile w1 = Stored (shopifyFiles w1)"
    and "run shop describes [] (start Absent) =
        map_option (Pair (Inr ())) (processCsv describes [] w1)"
    unfolding e by auto
  with a show ?thesis by blast
qed

text \<open>
  C2 as it is stated fails in a run that finds a cache file: \<open>paged_source\<close> has two pages
  of images to give, and the run posts no request, writes no cache file and has no entry
  for the shoe.
\<close>

theorem run_with_cache_counterexample:
  "run paged_source describes [] (start (Stored old_cache)) = Some (Inr (), cached_result) \<and>
   posts (trace cached_result) = [] \<and>
   persists (trace cached_result) = [] \<and>
   shopifyFiles cached_result ''shoe.jpg'' = None"
proof -
  have "processCsv describes [] cached_result = Some cached_result"
    by (simp add: processCsv_def process_batches.simps [of describes "[]" 0])
  moreover have "(start (Stored old_cache))\<lparr>shopifyFiles := old_cache\<rparr> = cached_result"
    by (simp add: start_def cached_result_def)
  ultimately have "run paged_source describes [] (start (Stored old_cache)) = Some (Inr (), cached_result)"
    by (simp add: run_def and_then_def start_def)
  moreover have "posts (trace cached_result) = []" "persists (trace cached_result) = []"
    "shopifyFiles cached_result ''shoe.jpg'' = None"
    by (simp_all add: cached_result_def old_cache_def)
  ultimately show ?thesis by blast
qed

end
